theory Spec2Isabelle
  imports Complex_Main "HOL-Library.AList"
begin

section \<open>Errors raised by the modelled code\<close>

text \<open>
  Every exception the modelled functions raise is a value of this type.  A function whose
  object stays mutated when it raises returns the pair of the optional error and the state.
\<close>

datatype error =
    ValueError string
  | OSError
  | RepositoryError string
  | CompressionError string
  | DecompressError
  | DecodeError
  | IndexError
  | KeyError
  | CoercionError

section \<open>Checkpoint stores (cdc/checkpoint.py)\<close>

text \<open>
  Both stores keep \<open>_positions: Dict[str, int]\<close>; Python's unbounded integers are
  \<open>int\<close>, the dictionary is a map.  The lock only serialises callers and is not modelled.
\<close>

record InMemoryCheckpointStore =
  mem_positions :: "string \<rightharpoonup> int"

definition mem_init :: InMemoryCheckpointStore where
  "mem_init = \<lparr>mem_positions = Map.empty\<rparr>"

definition mem_load :: "InMemoryCheckpointStore \<Rightarrow> string \<Rightarrow> int option" where
  "mem_load s slot_name = mem_positions s slot_name"

definition mem_save :: "string \<Rightarrow> int \<Rightarrow> InMemoryCheckpointStore \<Rightarrow> InMemoryCheckpointStore" where
  "mem_save slot_name lsn s =
     (case mem_positions s slot_name of
        None \<Rightarrow> s\<lparr>mem_positions := (mem_positions s)(slot_name \<mapsto> lsn)\<rparr>
      | Some current \<Rightarrow>
          if lsn > current then s\<lparr>mem_positions := (mem_positions s)(slot_name \<mapsto> lsn)\<rparr>
          else s)"

definition mem_reset ::
  "string \<Rightarrow> int option \<Rightarrow> int option \<Rightarrow> bool \<Rightarrow> InMemoryCheckpointStore
     \<Rightarrow> error option \<times> InMemoryCheckpointStore" where
  "mem_reset slot_name expected_lsn new_lsn force s =
     (let current = mem_positions s slot_name in
      if current = None \<and> new_lsn = None then
        (if \<not> force \<and> expected_lsn \<noteq> None \<and> expected_lsn \<noteq> current
         then (Some (ValueError ''resume token missing; supply force=True to reset''), s)
         else (None, s))
      else
        (case (if force then None
               else (case current of
                       None \<Rightarrow>
                         if expected_lsn \<noteq> None \<and> expected_lsn \<noteq> current
                         then Some (ValueError ''resume token missing; supply force=True to reset'')
                         else None
                     | Some c \<Rightarrow>
                         if expected_lsn = None \<or> expected_lsn \<noteq> Some c
                         then Some (ValueError ''unexpected resume token value'')
                         else (case new_lsn of
                                 None \<Rightarrow> None
                               | Some n \<Rightarrow>
                                   if n > c
                                   then Some (ValueError ''new resume token must not exceed current value'')
                                   else None))) of
           Some e \<Rightarrow> (Some e, s)
         | None \<Rightarrow>
             (case new_lsn of
                None \<Rightarrow> (None, s\<lparr>mem_positions := (mem_positions s)(slot_name := None)\<rparr>)
              | Some n \<Rightarrow> (None, s\<lparr>mem_positions := (mem_positions s)(slot_name \<mapsto> n)\<rparr>))))"

text \<open>
  The persistent store adds the file.  \<open>disk\<close> is the content of the checkpoint file
  (\<open>None\<close>: no file).  \<open>_write_locked\<close> either replaces the file by the current
  positions or raises \<open>OSError\<close>; whether the operating system lets the write through
  is the caller-supplied flag \<open>disk_ok\<close>.  The in-memory positions stay as they were
  set when the write raises.
\<close>

record PersistentCheckpointStore =
  positions :: "string \<rightharpoonup> int"
  disk :: "(string \<rightharpoonup> int) option"

definition load_from_disk :: "(string \<rightharpoonup> int) option \<Rightarrow> PersistentCheckpointStore" where
  "load_from_disk d =
     (case d of
        None \<Rightarrow> \<lparr>positions = Map.empty, disk = None\<rparr>
      | Some filtered \<Rightarrow> \<lparr>positions = filtered, disk = Some filtered\<rparr>)"

definition load :: "PersistentCheckpointStore \<Rightarrow> string \<Rightarrow> int option" where
  "load s slot_name = positions s slot_name"

definition write_locked ::
  "bool \<Rightarrow> PersistentCheckpointStore \<Rightarrow> error option \<times> PersistentCheckpointStore" where
  "write_locked disk_ok s =
     (if disk_ok then (None, s\<lparr>disk := Some (positions s)\<rparr>) else (Some OSError, s))"

definition save ::
  "bool \<Rightarrow> string \<Rightarrow> int \<Rightarrow> PersistentCheckpointStore
     \<Rightarrow> error option \<times> PersistentCheckpointStore" where
  "save disk_ok slot_name lsn s =
     (case positions s slot_name of
        None \<Rightarrow> write_locked disk_ok (s\<lparr>positions := (positions s)(slot_name \<mapsto> lsn)\<rparr>)
      | Some current \<Rightarrow>
          if lsn \<le> current then (None, s)
          else write_locked disk_ok (s\<lparr>positions := (positions s)(slot_name \<mapsto> lsn)\<rparr>))"

definition reset ::
  "bool \<Rightarrow> string \<Rightarrow> int option \<Rightarrow> int option \<Rightarrow> bool \<Rightarrow> PersistentCheckpointStore
     \<Rightarrow> error option \<times> PersistentCheckpointStore" where
  "reset disk_ok slot_name expected_lsn new_lsn force s =
     (let current = positions s slot_name in
      if current = None \<and> new_lsn = None then
        (if \<not> force \<and> expected_lsn \<noteq> None \<and> expected_lsn \<noteq> current
         then (Some (ValueError ''resume token does not exist for slot''), s)
         else (None, s))
      else
        (case (if force then None
               else (case current of
                       None \<Rightarrow>
                         if expected_lsn \<noteq> None \<and> expected_lsn \<noteq> current
                         then Some (ValueError ''resume token does not exist for slot'')
                         else None
                     | Some c \<Rightarrow>
                         if expected_lsn = None \<or> expected_lsn \<noteq> Some c
                         then Some (ValueError ''unexpected resume token value'')
                         else (case new_lsn of
                                 None \<Rightarrow> None
                               | Some n \<Rightarrow>
                                   if n > c
                                   then Some (ValueError ''new resume token must not exceed current value'')
                                   else None))) of
           Some e \<Rightarrow> (Some e, s)
         | None \<Rightarrow>
             (case new_lsn of
                None \<Rightarrow>
                  (if current = None then (None, s)
                   else write_locked disk_ok (s\<lparr>positions := (positions s)(slot_name := None)\<rparr>))
              | Some n \<Rightarrow>
                  write_locked disk_ok (s\<lparr>positions := (positions s)(slot_name \<mapsto> n)\<rparr>))))"

text \<open>
  A sequence of calls \<open>save(slot, lsn_1), ..., save(slot, lsn_n)\<close>.  For the persistent
  store every call comes with its own \<open>disk_ok\<close> flag, and a caller that catches the
  \<open>OSError\<close> goes on with the next call.
\<close>

definition mem_saves :: "string \<Rightarrow> int list \<Rightarrow> InMemoryCheckpointStore \<Rightarrow> InMemoryCheckpointStore" where
  "mem_saves slot_name lsns s = fold (mem_save slot_name) lsns s"

definition saves ::
  "string \<Rightarrow> (bool \<times> int) list \<Rightarrow> PersistentCheckpointStore \<Rightarrow> PersistentCheckpointStore" where
  "saves slot_name calls s = fold (\<lambda>(disk_ok, lsn) st. snd (save disk_ok slot_name lsn st)) calls s"

text \<open>The largest position among the stored one (if any) and the saved ones.\<close>

definition max_position :: "int option \<Rightarrow> int list \<Rightarrow> int option" where
  "max_position current lsns =
     fold (\<lambda>lsn acc. case acc of None \<Rightarrow> Some lsn | Some c \<Rightarrow> Some (max c lsn)) lsns current"

section \<open>Canary writer: retry policy and circuit breaker (canary/client.py)\<close>

text \<open>
  Delays and clock readings are Python floats; a float is the rational number it denotes.
  The retry policy only compares delays, doubles them and takes \<open>min\<close>/\<open>max\<close>,
  which are exact on binary floats.  The circuit breaker subtracts clock readings, and a
  float subtraction rounds (see \<open>float_sub\<close> below).  The jitter is the function handed
  to the policy (the default, a random draw from \<open>[0, limit]\<close>, is outside the model).
\<close>

record RetryPolicy =
  retries :: int
  jitter_fn :: "rat \<Rightarrow> rat"
  limits :: "rat list"

fun build_limits :: "nat \<Rightarrow> rat \<Rightarrow> rat \<Rightarrow> rat list" where
  "build_limits 0 delay max_delay = []"
| "build_limits (Suc n) delay max_delay =
     min delay max_delay # build_limits n (min (delay * 2) max_delay) max_delay"

definition RetryPolicy_init :: "int \<Rightarrow> rat \<Rightarrow> rat \<Rightarrow> (rat \<Rightarrow> rat) \<Rightarrow> error + RetryPolicy" where
  "RetryPolicy_init attempts base_delay max_delay jitter =
     (if attempts < 0 then Inl (ValueError ''attempts must be >= 0'')
      else if base_delay \<le> 0 \<or> max_delay \<le> 0 then Inl (ValueError ''delays must be positive'')
      else Inr \<lparr>retries = attempts, jitter_fn = jitter,
                 limits = build_limits (nat (max attempts 0)) base_delay max_delay\<rparr>)"

definition max_attempts :: "RetryPolicy \<Rightarrow> int" where
  "max_attempts p = retries p + 1"

definition next_delay :: "RetryPolicy \<Rightarrow> int \<Rightarrow> rat" where
  "next_delay p attempt =
     (if attempt \<le> 1 then 0
      else let index = min (attempt - 2) (int (length (limits p)) - 1) in
           if index < 0 then 0
           else max 0 (jitter_fn p (limits p ! nat index)))"

datatype breaker_state = CLOSED | OPEN | HALF_OPEN

record CircuitBreaker =
  threshold :: int
  reset_timeout :: rat
  state :: breaker_state
  failures :: int
  opened_at :: rat

definition CircuitBreaker_init :: "int \<Rightarrow> rat \<Rightarrow> error + CircuitBreaker" where
  "CircuitBreaker_init failure_threshold timeout =
     (if failure_threshold \<le> 0 then Inl (ValueError ''failure_threshold must be positive'')
      else if timeout \<le> 0 then Inl (ValueError ''reset_timeout must be positive'')
      else Inr \<lparr>threshold = failure_threshold, reset_timeout = timeout,
                 state = CLOSED, failures = 0, opened_at = 0\<rparr>)"

subsection \<open>Float subtraction\<close>

text \<open>
  \<open>a - b\<close> on two floats is the double nearest to the exact difference, a tie going to
  the even significand (IEEE 754 binary64, round to nearest even).  A positive number is
  brought to the form \<open>q * 2^e\<close> with \<open>2^52 \<le> q < 2^53\<close>, \<open>q\<close> is rounded to an
  integer, and the result is scaled back.  Results beyond the largest double, which overflow
  to infinity, are not modelled; differences in the subnormal range are exact in both.
\<close>

definition pow2 :: "int \<Rightarrow> rat" where
  "pow2 e = (if 0 \<le> e then 2 ^ nat e else 1 / 2 ^ nat (- e))"

function normalize_significand :: "rat \<Rightarrow> int \<Rightarrow> rat \<times> int" where
  "normalize_significand q e =
     (if q \<le> 0 then (q, e)
      else if 2 ^ 53 \<le> q then normalize_significand (q / 2) (e + 1)
      else if q < 2 ^ 52 then normalize_significand (q * 2) (e - 1)
      else (q, e))"
  by pat_completeness auto
termination
proof (relation "measure (\<lambda>(q, e). if 2 ^ 53 \<le> q then nat \<lceil>q\<rceil>
                                   else if 0 < q \<and> q < 2 ^ 52 then nat \<lceil>2 ^ 53 / q\<rceil>
                                   else 0)")
  show "wf (measure (\<lambda>(q, e). if 2 ^ 53 \<le> q then nat \<lceil>q\<rceil>
                                   else if 0 < q \<and> q < 2 ^ 52 then nat \<lceil>2 ^ 53 / q\<rceil>
                                   else 0))"
    by simp
next
  have half: "nat \<lceil>y / 2\<rceil> < nat \<lceil>y\<rceil>" if "2 \<le> y" for y :: rat
  proof -
    have "y / 2 \<le> y - 1" using that by simp
    then have "\<lceil>y / 2\<rceil> \<le> \<lceil>y - 1\<rceil>" by (rule ceiling_mono)
    then have "\<lceil>y / 2\<rceil> < \<lceil>y\<rceil>" by simp
    moreover have "0 < \<lceil>y\<rceil>" using that by simp
    ultimately show ?thesis by simp
  qed
  fix q :: rat and e :: int
  {
    assume big: "2 ^ 53 \<le> q"
    have "2 \<le> q" using big by simp
    from half [OF this] have "nat \<lceil>q / 2\<rceil> < nat \<lceil>q\<rceil>" .
    moreover have "0 < nat \<lceil>q\<rceil>" using big by simp
    moreover have "\<not> q / 2 < 2 ^ 52" using big by simp
    ultimately show "((q / 2, e + 1), (q, e))
        \<in> measure (\<lambda>(q, e). if 2 ^ 53 \<le> q then nat \<lceil>q\<rceil>
                                else if 0 < q \<and> q < 2 ^ 52 then nat \<lceil>2 ^ 53 / q\<rceil>
                                else 0)"
      using big by simp
  }
  {
    assume pos: "\<not> q \<le> 0" and small: "q < 2 ^ 52" and nb: "\<not> 2 ^ 53 \<le> q"
    have q: "0 < q" using pos by simp
    have "2 * q \<le> 2 ^ 53" using small by simp
    then have "2 \<le> 2 ^ 53 / q" using q by (simp add: pos_le_divide_eq)
    from half [OF this] have "nat \<lceil>2 ^ 53 / q / 2\<rceil> < nat \<lceil>2 ^ 53 / q\<rceil>" .
    moreover have "2 ^ 53 / q / 2 = 2 ^ 53 / (q * 2)" by simp
    moreover have "0 < nat \<lceil>2 ^ 53 / q\<rceil>" using q by simp
    moreover have "\<not> 2 ^ 53 \<le> q * 2" using small by simp
    ultimately show "((q * 2, e - 1), (q, e))
        \<in> measure (\<lambda>(q, e). if 2 ^ 53 \<le> q then nat \<lceil>q\<rceil>
                                else if 0 < q \<and> q < 2 ^ 52 then nat \<lceil>2 ^ 53 / q\<rceil>
                                else 0)"
      using q small by simp
  }
qed

declare normalize_significand.simps [simp del]

definition round_half_even :: "rat \<Rightarrow> int" where
  "round_half_even q =
     (let f = \<lfloor>q\<rfloor>; r = q - of_int f in
      if r < 1 / 2 then f
      else if 1 / 2 < r then f + 1
      else if even f then f else f + 1)"

definition round_double :: "rat \<Rightarrow> rat" where
  "round_double x =
     (if x = 0 then 0
      else (case normalize_significand \<bar>x\<bar> 0 of
              (q, e) \<Rightarrow>
                (if x < 0 then - (of_int (round_half_even q) * pow2 e)
                 else of_int (round_half_even q) * pow2 e)))"

definition float_sub :: "rat \<Rightarrow> rat \<Rightarrow> rat" where
  "float_sub a b = round_double (a - b)"

text \<open>\<open>now\<close> is what \<open>self._clock()\<close> returns during the call.\<close>

definition time_until_allow :: "rat \<Rightarrow> CircuitBreaker \<Rightarrow> rat" where
  "time_until_allow now b =
     (if state b \<noteq> OPEN then 0
      else let elapsed = float_sub now (opened_at b);
               remaining = float_sub (reset_timeout b) elapsed
           in max 0 remaining)"

definition allow :: "rat \<Rightarrow> CircuitBreaker \<Rightarrow> bool \<times> CircuitBreaker" where
  "allow now b =
     (if state b = OPEN then
        (if time_until_allow now b > 0 then (False, b)
         else (True, b\<lparr>state := HALF_OPEN, failures := 0\<rparr>))
      else (True, b))"

definition record_success :: "CircuitBreaker \<Rightarrow> CircuitBreaker" where
  "record_success b = b\<lparr>state := CLOSED, failures := 0, opened_at := 0\<rparr>"

definition record_failure :: "rat \<Rightarrow> CircuitBreaker \<Rightarrow> CircuitBreaker" where
  "record_failure now b =
     (let b' = b\<lparr>failures := failures b + 1\<rparr> in
      if state b' \<in> {HALF_OPEN, OPEN} \<or> failures b' \<ge> threshold b'
      then b'\<lparr>state := OPEN, opened_at := now\<rparr>
      else b')"

text \<open>Calls in sequence: failures at the given clock readings, and \<open>allow()\<close> calls.\<close>

definition record_failures :: "rat list \<Rightarrow> CircuitBreaker \<Rightarrow> CircuitBreaker" where
  "record_failures ts b = fold record_failure ts b"

fun allows :: "rat list \<Rightarrow> CircuitBreaker \<Rightarrow> bool list \<times> CircuitBreaker" where
  "allows [] b = ([], b)"
| "allows (now # nows) b =
     (case allow now b of (r, b') \<Rightarrow> (case allows nows b' of (rs, b'') \<Rightarrow> (r # rs, b'')))"

text \<open>
  A breaker that opens at the first failure, and the doubles nearest to 0.1 and to 5.1.
\<close>

definition quick_breaker :: CircuitBreaker where
  "quick_breaker = \<lparr>threshold = 1, reset_timeout = 5, state = CLOSED, failures = 0, opened_at = 0\<rparr>"

definition double_0_1 :: rat where
  "double_0_1 = 3602879701896397 / 36028797018963968"

definition double_5_1 :: rat where
  "double_5_1 = 2871044762448691 / 562949953421312"

definition fresh_breaker :: CircuitBreaker where
  "fresh_breaker = \<lparr>threshold = 2, reset_timeout = 60, state = CLOSED, failures = 0, opened_at = 0\<rparr>"

subsection \<open>Dispatch with retries (\<open>CanaryClient._dispatch\<close>)\<close>

text \<open>
  The exceptions a request sender raises, as far as \<open>_is_retriable\<close> and
  \<open>_handle_session_error\<close> look at them: the HTTP status, and whether the response body
  mentions \<open>BadSessionToken\<close> or \<open>sessionToken\<close>.
\<close>

datatype send_error =
    PayloadTooLargeError
  | HTTPStatusError nat bool
  | RequestError
  | OtherError

definition is_retriable :: "send_error \<Rightarrow> bool" where
  "is_retriable exc =
     (case exc of
        PayloadTooLargeError \<Rightarrow> False
      | HTTPStatusError status _ \<Rightarrow> status \<ge> 500 \<or> status = 429
      | RequestError \<Rightarrow> True
      | OtherError \<Rightarrow> True)"

definition handle_session_error :: "bool \<Rightarrow> send_error \<Rightarrow> bool" where
  "handle_session_error session_manager exc =
     (if \<not> session_manager then False
      else (case exc of
              HTTPStatusError status bad_token \<Rightarrow>
                if status \<in> {401, 403} then True else bad_token
            | _ \<Rightarrow> False))"

text \<open>
  The part of the client that \<open>_dispatch\<close> reads and writes: the retry policy, the
  breaker, the metrics, and two logs that stand for the injected collaborators:
  \<open>sender_calls\<close> counts the invocations of the request sender and \<open>sleeps\<close> lists
  the durations handed to the sleep function.
\<close>

record CanaryClient =
  retry_policy :: RetryPolicy
  circuit :: CircuitBreaker
  session_manager :: bool
  requests_total :: int
  success_total :: int
  retry_total :: int
  failure_total :: int
  dead_letter_total :: int
  circuit_state :: breaker_state
  sender_calls :: nat
  sleeps :: "rat list"

definition wait :: "rat \<Rightarrow> CanaryClient \<Rightarrow> CanaryClient" where
  "wait duration c = (if duration \<le> 0 then c else c\<lparr>sleeps := sleeps c @ [duration]\<rparr>)"

definition emit_dead_letter :: "int \<Rightarrow> CanaryClient \<Rightarrow> CanaryClient" where
  "emit_dead_letter amount c =
     (if amount \<le> 0 then c else c\<lparr>dead_letter_total := dead_letter_total c + amount\<rparr>)"

text \<open>
  The \<open>while True\<close> loop of \<open>_dispatch\<close>.  \<open>sender attempt\<close> is what the request
  sender does at that attempt (\<open>None\<close>: it returns, \<open>Some exc\<close>: it raises), and
  \<open>clock attempt\<close> is the clock reading when the breaker records that attempt's failure.
\<close>

function dispatch_loop ::
  "(int \<Rightarrow> send_error option) \<Rightarrow> (int \<Rightarrow> rat) \<Rightarrow> int \<Rightarrow> int \<Rightarrow> CanaryClient \<Rightarrow> CanaryClient" where
  "dispatch_loop sender clock batch_len attempt c =
     (let c1 = c\<lparr>sender_calls := sender_calls c + 1\<rparr> in
      case sender attempt of
        Some exc \<Rightarrow>
          (let session_invalidated = handle_session_error (session_manager c1) exc;
               retriable = is_retriable exc \<or> session_invalidated
           in if attempt \<ge> max_attempts (retry_policy c1) \<or> \<not> retriable then
                (let c2 = c1\<lparr>failure_total := failure_total c1 + 1\<rparr>;
                     c3 = c2\<lparr>circuit := record_failure (clock attempt) (circuit c2)\<rparr>;
                     c4 = c3\<lparr>circuit_state := state (circuit c3)\<rparr>
                 in emit_dead_letter batch_len c4)
              else
                (let c2 = c1\<lparr>retry_total := retry_total c1 + 1\<rparr>;
                     c3 = c2\<lparr>circuit := record_failure (clock attempt) (circuit c2)\<rparr>;
                     c4 = c3\<lparr>circuit_state := state (circuit c3)\<rparr>;
                     delay = next_delay (retry_policy c4) (attempt + 1)
                 in dispatch_loop sender clock batch_len (attempt + 1) (wait delay c4)))
      | None \<Rightarrow>
          (let c2 = c1\<lparr>success_total := success_total c1 + batch_len\<rparr>;
               c3 = c2\<lparr>circuit := record_success (circuit c2)\<rparr>
           in c3\<lparr>circuit_state := state (circuit c3)\<rparr>))"
  by pat_completeness auto
termination
  by (relation "measure (\<lambda>(sender, clock, batch_len, attempt, c).
        nat (max_attempts (retry_policy c) - attempt))")
     (auto simp: wait_def)

definition dispatch ::
  "(int \<Rightarrow> send_error option) \<Rightarrow> (int \<Rightarrow> rat) \<Rightarrow> int \<Rightarrow> CanaryClient \<Rightarrow> CanaryClient" where
  "dispatch sender clock batch_len c =
     dispatch_loop sender clock batch_len 1 (c\<lparr>requests_total := requests_total c + 1\<rparr>)"

text \<open>One turn of the loop that ends in a retry: the client before the next attempt.\<close>

definition retry_step :: "rat \<Rightarrow> int \<Rightarrow> CanaryClient \<Rightarrow> CanaryClient" where
  "retry_step now attempt c =
     wait (next_delay (retry_policy c) (attempt + 1))
       (c\<lparr>sender_calls := sender_calls c + 1, retry_total := retry_total c + 1,
          circuit := record_failure now (circuit c),
          circuit_state := state (record_failure now (circuit c))\<rparr>)"

text \<open>A client as its constructor leaves it, for given policy and breaker.\<close>

definition new_client :: "RetryPolicy \<Rightarrow> CircuitBreaker \<Rightarrow> CanaryClient" where
  "new_client p b =
     \<lparr>retry_policy = p, circuit = b, session_manager = False, requests_total = 0,
      success_total = 0, retry_total = 0, failure_total = 0, dead_letter_total = 0,
      circuit_state = CLOSED, sender_calls = 0, sleeps = []\<rparr>"

declare dispatch_loop.simps [simp del]

text \<open>
  The limit the retry policy is described by: before the \<open>n\<close>-th retry,
  \<open>min(base_delay * 2^(n-1), max_delay)\<close>.
\<close>

definition retry_limit :: "rat \<Rightarrow> rat \<Rightarrow> nat \<Rightarrow> rat" where
  "retry_limit base_delay max_delay n = min (base_delay * 2 ^ (n - 1)) max_delay"

text \<open>Concrete collaborators for evaluating a dispatch.\<close>

definition failing_sender :: "int \<Rightarrow> send_error option" where
  "failing_sender attempt = Some RequestError"

definition zero_clock :: "int \<Rightarrow> rat" where
  "zero_clock attempt = 0"

definition cap_jitter :: "rat \<Rightarrow> rat" where
  "cap_jitter limit = limit"

definition negative_jitter :: "rat \<Rightarrow> rat" where
  "negative_jitter limit = - 1"

section \<open>Sparkplug compression wrappers (\<open>sparkplug_b_utils.py\<close>)\<close>

text \<open>
  The fields of the protobuf \<open>Payload\<close> and \<open>Metric\<close> messages that the helpers read.
  \<open>metric_value\<close> is the \<open>value\<close> oneof of a metric (\<open>WhichOneof("value")\<close>);
  bytes are characters.
\<close>

type_synonym bytes = "char list"

datatype metric_value =
    NoValue
  | IntValue int
  | LongValue int
  | FloatValue rat
  | BooleanValue bool
  | StringValue string
  | BytesValue bytes

record Metric =
  metric_name :: string
  is_null :: bool
  metric_value :: metric_value

record Payload =
  uuid :: string
  body :: bytes
  metrics :: "Metric list"

text \<open>
  The libraries behind the helpers are parameters: \<open>gzip.decompress\<close> (which can fail
  with an \<open>OSError\<close> or with another exception), \<open>zlib.decompress\<close> and the protobuf
  parser \<open>ParseFromString\<close> (\<open>None\<close>: the call raises).
\<close>

datatype gzip_result = Inflated bytes | GzipOSError | GzipOtherError

record codec =
  gzip_decompress :: "bytes \<Rightarrow> gzip_result"
  zlib_decompress :: "bytes \<Rightarrow> bytes option"
  ParseFromString :: "bytes \<Rightarrow> Payload option"

fun metric_algorithm_value :: "Metric list \<Rightarrow> string option" where
  "metric_algorithm_value [] = None"
| "metric_algorithm_value (metric # rest) =
     (case metric_value metric of
        StringValue s \<Rightarrow>
          if metric_name metric = ''algorithm'' \<and> \<not> is_null metric then Some s
          else metric_algorithm_value rest
      | _ \<Rightarrow> metric_algorithm_value rest)"

definition is_compressed_wrapper :: "Payload \<Rightarrow> bool" where
  "is_compressed_wrapper payload =
     (if uuid payload = ''SPBV1.0_COMPRESSED'' \<and> length (body payload) > 0 then True
      else (metric_algorithm_value (metrics payload) = Some ''GZIP'')
             \<and> length (body payload) > 0)"

definition unwrap_if_compressed :: "codec \<Rightarrow> Payload \<Rightarrow> error + Payload" where
  "unwrap_if_compressed lib payload =
     (if \<not> is_compressed_wrapper payload then Inr payload
      else if body payload = [] then Inl (CompressionError ''Compressed payload had empty body'')
      else (case (case gzip_decompress lib (body payload) of
                    Inflated inner_bytes \<Rightarrow> Some inner_bytes
                  | GzipOSError \<Rightarrow> zlib_decompress lib (body payload)
                  | GzipOtherError \<Rightarrow> None) of
              None \<Rightarrow> Inl DecompressError
            | Some inner_bytes \<Rightarrow>
                (case ParseFromString lib inner_bytes of
                   None \<Rightarrow> Inl DecodeError
                 | Some inner \<Rightarrow> Inr inner)))"

definition decode_sparkplug_payload :: "codec \<Rightarrow> bytes \<Rightarrow> error + Payload" where
  "decode_sparkplug_payload lib blob =
     (case ParseFromString lib blob of
        None \<Rightarrow> Inl DecodeError
      | Some outer \<Rightarrow> unwrap_if_compressed lib outer)"

text \<open>
  The wrapper marks as the specification words them: the uuid, or a metric named
  \<open>algorithm\<close> whose string value is \<open>GZIP\<close>.
\<close>

definition marked_as_wrapper :: "Payload \<Rightarrow> bool" where
  "marked_as_wrapper payload =
     (uuid payload = ''SPBV1.0_COMPRESSED'' \<or>
      metric_algorithm_value (metrics payload) = Some ''GZIP'')"

text \<open>An empty-bodied payload carrying both marks, and a codec whose calls all fail.\<close>

definition empty_wrapper :: Payload where
  "empty_wrapper =
     \<lparr>uuid = ''SPBV1.0_COMPRESSED'', body = [],
      metrics = [\<lparr>metric_name = ''algorithm'', is_null = False,
                  metric_value = StringValue ''GZIP''\<rparr>]\<rparr>"

definition gzip_fails :: "bytes \<Rightarrow> gzip_result" where
  "gzip_fails data = GzipOSError"

definition zlib_fails :: "bytes \<Rightarrow> bytes option" where
  "zlib_fails data = None"

definition parse_fails :: "bytes \<Rightarrow> Payload option" where
  "parse_fails data = None"

definition parse_empty_wrapper :: "bytes \<Rightarrow> Payload option" where
  "parse_empty_wrapper data = Some empty_wrapper"

section \<open>Diff accumulator (cdc/diffing.py)\<close>

text \<open>
  Dictionaries whose iteration order the code relies on are association lists with the
  behaviour of a Python \<open>dict\<close>: \<open>AList.update\<close> replaces the value of a key in place
  and appends a new key at the end, \<open>map_of\<close> is \<open>get\<close>.  The values of a change map
  are of any type \<open>'v\<close>.
\<close>

record 'v DiffEvent =
  event_id :: string
  uns_path :: string
  version :: int
  actor :: string
  changes :: "(string \<times> 'v) list"
  timestamp :: string

record 'v AggregatedDiff =
  agg_uns_path :: string
  events :: "'v DiffEvent list"
  merged_changes :: "(string \<times> (int \<times> 'v)) list"

text \<open>One turn of the loop over \<open>event.changes.items()\<close> in \<open>AggregatedDiff.append\<close>.\<close>

definition merge_change ::
  "int \<Rightarrow> string \<times> 'v \<Rightarrow> (string \<times> (int \<times> 'v)) list \<Rightarrow> (string \<times> (int \<times> 'v)) list" where
  "merge_change event_version change merged =
     (case change of (key, val) \<Rightarrow>
        (case map_of merged key of
           None \<Rightarrow> AList.update key (event_version, val) merged
         | Some current \<Rightarrow>
             if event_version \<ge> fst current
             then AList.update key (event_version, val) merged
             else merged))"

definition append_event :: "'v DiffEvent \<Rightarrow> 'v AggregatedDiff \<Rightarrow> 'v AggregatedDiff" where
  "append_event event agg =
     agg\<lparr>events := events agg @ [event],
         merged_changes := fold (merge_change (version event)) (changes event) (merged_changes agg)\<rparr>"

record 'v snapshot =
  snap_uns_path :: string
  versions :: "int list"
  latest_version :: int
  previous_version :: "int option"
  latest_actor :: string
  actors :: "string list"
  timestamps :: "string list"
  snap_changes :: "(string \<times> 'v) list"

text \<open>
  \<open>sorted\<close> is stable, as \<open>sort_key\<close> is.  \<open>ordered_events[-1]\<close> raises
  \<open>IndexError\<close> on an entry without events.
\<close>

definition to_snapshot :: "'v AggregatedDiff \<Rightarrow> error + 'v snapshot" where
  "to_snapshot agg =
     (let ordered_events = sort_key version (events agg) in
      if ordered_events = [] then Inl IndexError
      else Inr \<lparr>snap_uns_path = agg_uns_path agg,
                 versions = map version ordered_events,
                 latest_version = version (last ordered_events),
                 previous_version =
                   (if length ordered_events > 1
                    then Some (version (ordered_events ! (length ordered_events - 2)))
                    else None),
                 latest_actor = actor (last ordered_events),
                 actors = map actor ordered_events,
                 timestamps = map timestamp ordered_events,
                 snap_changes = map (\<lambda>(key, (ver, val)). (key, val)) (merged_changes agg)\<rparr>)"

record 'v DiffAccumulator =
  entries :: "(string \<times> 'v AggregatedDiff) list"
  seen_event_ids :: "string set"

definition DiffAccumulator_init :: "'v DiffAccumulator" where
  "DiffAccumulator_init = \<lparr>entries = [], seen_event_ids = {}\<rparr>"

definition apply_event :: "'v DiffEvent \<Rightarrow> 'v DiffAccumulator \<Rightarrow> bool \<times> 'v DiffAccumulator" where
  "apply_event event acc =
     (if event_id event \<in> seen_event_ids acc then (False, acc)
      else
        (let entry = (case map_of (entries acc) (uns_path event) of
                        None \<Rightarrow> \<lparr>agg_uns_path = uns_path event, events = [], merged_changes = []\<rparr>
                      | Some e \<Rightarrow> e)
         in (True, acc\<lparr>seen_event_ids := insert (event_id event) (seen_event_ids acc),
                       entries := AList.update (uns_path event) (append_event event entry) (entries acc)\<rparr>)))"

text \<open>
  \<open>pop\<close> removes the entry of a path and renders it; the entry is gone even when the
  rendering raises.
\<close>

definition pop ::
  "string \<Rightarrow> 'v DiffAccumulator \<Rightarrow> (error + 'v snapshot option) \<times> 'v DiffAccumulator" where
  "pop path acc =
     (case map_of (entries acc) path of
        None \<Rightarrow> (Inr None, acc)
      | Some entry \<Rightarrow>
          (case to_snapshot entry of
             Inl e \<Rightarrow> (Inl e, acc\<lparr>entries := AList.delete path (entries acc)\<rparr>)
           | Inr snap \<Rightarrow> (Inr (Some snap), acc\<lparr>entries := AList.delete path (entries acc)\<rparr>)))"

text \<open>
  What \<open>snapshot()\<close> shows for a path: the rendering of its entry (\<open>None\<close> when the
  accumulator has no entry for it).
\<close>

definition snapshot_of :: "'v DiffAccumulator \<Rightarrow> string \<Rightarrow> (error + 'v snapshot) option" where
  "snapshot_of acc path = map_option to_snapshot (map_of (entries acc) path)"

definition snapshot_all :: "'v DiffAccumulator \<Rightarrow> (error + 'v snapshot) list" where
  "snapshot_all acc = map (\<lambda>(path, entry). to_snapshot entry) (entries acc)"

text \<open>The value a snapshot exposes for a change key.\<close>

definition exposed_change :: "'v DiffAccumulator \<Rightarrow> string \<Rightarrow> string \<Rightarrow> 'v option" where
  "exposed_change acc path key =
     (case snapshot_of acc path of
        Some (Inr snap) \<Rightarrow> map_of (snap_changes snap) key
      | _ \<Rightarrow> None)"

text \<open>Two events of equal version on one path and one key.\<close>

definition tie_first :: "int DiffEvent" where
  "tie_first = \<lparr>event_id = ''evt-1'', uns_path = ''Plant/Kiln/T1'', version = 5,
                 actor = ''svc-a'', changes = [(''displayHigh'', 1800)],
                 timestamp = ''2025-09-01T12:00:00Z''\<rparr>"

definition tie_second :: "int DiffEvent" where
  "tie_second = \<lparr>event_id = ''evt-2'', uns_path = ''Plant/Kiln/T1'', version = 5,
                  actor = ''svc-b'', changes = [(''displayHigh'', 1750)],
                  timestamp = ''2025-09-01T12:01:00Z''\<rparr>"

definition out_of_order_second :: "int DiffEvent" where
  "out_of_order_second = \<lparr>event_id = ''evt-3'', uns_path = ''Plant/Kiln/T1'', version = 4,
                  actor = ''svc-b'', changes = [(''displayHigh'', 1950), (''comment'', 7)],
                  timestamp = ''2025-09-01T11:58:00Z''\<rparr>"

section \<open>Debounce buffer (cdc/debounce.py)\<close>

text \<open>
  Timestamps are floats that the code only compares and stores; they are rationals here.
  An optional argument is an \<open>option\<close>, \<open>None\<close> being Python's \<open>None\<close>.
\<close>

record 'v DebounceEntry =
  metric_key :: string
  first_seen :: rat
  last_update :: rat
  entry_payload :: "(string \<times> 'v) list"
  entry_version :: "int option"
  entry_actor :: "string option"
  event_ids :: "string set"
  extras :: "(string \<times> 'v) list"

text \<open>\<open>dict.update\<close> and the loop \<open>for key, value in diff.items(): payload[key] = value\<close>.\<close>

definition dict_update :: "(string \<times> 'v) list \<Rightarrow> (string \<times> 'v) list \<Rightarrow> (string \<times> 'v) list" where
  "dict_update new old = fold (\<lambda>(key, val) d. AList.update key val d) new old"

definition merge ::
  "(string \<times> 'v) list \<Rightarrow> int option \<Rightarrow> string option \<Rightarrow> string option \<Rightarrow> rat option
     \<Rightarrow> (string \<times> 'v) list option \<Rightarrow> 'v DebounceEntry \<Rightarrow> 'v DebounceEntry" where
  "merge diff ver act eid ts ext e =
     (let e1 = e\<lparr>entry_payload := dict_update diff (entry_payload e)\<rparr>;
          e2 = (case ver of
                  None \<Rightarrow> e1
                | Some v \<Rightarrow>
                    (case entry_version e1 of
                       None \<Rightarrow> e1\<lparr>entry_version := Some v\<rparr>
                     | Some cur \<Rightarrow> if v \<ge> cur then e1\<lparr>entry_version := Some v\<rparr> else e1));
          e3 = (case act of
                  None \<Rightarrow> e2
                | Some a \<Rightarrow> if a \<noteq> [] then e2\<lparr>entry_actor := Some a\<rparr> else e2);
          e4 = (case eid of
                  None \<Rightarrow> e3
                | Some i \<Rightarrow> if i \<noteq> [] then e3\<lparr>event_ids := insert i (event_ids e3)\<rparr> else e3);
          e5 = (case ts of
                  None \<Rightarrow> e4
                | Some t \<Rightarrow> e4\<lparr>last_update := t\<rparr>);
          e6 = (case ext of
                  None \<Rightarrow> e5
                | Some x \<Rightarrow> if x \<noteq> [] then e5\<lparr>extras := dict_update x (extras e5)\<rparr> else e5)
      in e6)"

text \<open>
  The buffer with its metrics: the counters \<open>dropped\<close> and \<open>emitted\<close> and the gauge
  \<open>buffer_depth\<close>.
\<close>

record 'v DebounceBuffer =
  window_seconds :: rat
  max_entries :: int
  buf_entries :: "(string \<times> 'v DebounceEntry) list"
  sequence :: "string list"
  dropped :: int
  emitted :: int
  buffer_depth :: int

definition DebounceBuffer_init :: "rat \<Rightarrow> int \<Rightarrow> error + 'v DebounceBuffer" where
  "DebounceBuffer_init window cap =
     (if window \<le> 0 then Inl (ValueError ''window_seconds must be positive'')
      else if cap \<le> 0 then Inl (ValueError ''max_entries must be positive'')
      else Inr \<lparr>window_seconds = window, max_entries = cap, buf_entries = [], sequence = [],
                 dropped = 0, emitted = 0, buffer_depth = 0\<rparr>)"

text \<open>\<open>min(values, key=last_update)\<close> returns the first entry with the least key.\<close>

fun oldest :: "'v DebounceEntry \<Rightarrow> 'v DebounceEntry list \<Rightarrow> 'v DebounceEntry" where
  "oldest best [] = best"
| "oldest best (e # es) = oldest (if last_update e < last_update best then e else best) es"

function enforce_cap :: "'v DebounceBuffer \<Rightarrow> error option \<times> 'v DebounceBuffer" where
  "enforce_cap b =
     (if int (length (buf_entries b)) > max_entries b then
        (case map snd (buf_entries b) of
           [] \<Rightarrow> (Some (ValueError ''min() arg is an empty sequence''), b)
         | e # es \<Rightarrow>
             (let oldest_key = metric_key (oldest e es) in
              case map_of (buf_entries b) oldest_key of
                None \<Rightarrow> (Some KeyError, b)
              | Some gone \<Rightarrow>
                  (let b1 = b\<lparr>buf_entries := AList.delete oldest_key (buf_entries b)\<rparr> in
                   if oldest_key \<notin> set (sequence b1)
                   then (Some (ValueError ''list.remove(x): x not in list''), b1)
                   else enforce_cap (b1\<lparr>sequence := remove1 oldest_key (sequence b1),
                                         dropped := dropped b1 + 1\<rparr>))))
      else (None, b))"
  by pat_completeness auto
termination
proof (relation "measure (\<lambda>b. length (buf_entries b))")
  show "wf (measure (\<lambda>b. length (buf_entries b)))" by simp
next
  fix b :: "'v DebounceBuffer" and e es oldest_key gone b1
  assume key: "oldest_key = metric_key (oldest e es)"
    and found: "map_of (buf_entries b) oldest_key = Some gone"
    and b1: "b1 = b\<lparr>buf_entries := AList.delete oldest_key (buf_entries b)\<rparr>"
  have "(oldest_key, gone) \<in> set (buf_entries b)"
    using found by (rule map_of_SomeD)
  then have "length (AList.delete oldest_key (buf_entries b)) < length (buf_entries b)"
    unfolding AList.delete_eq by (intro length_filter_less [of "(oldest_key, gone)"]) auto
  then show "(b1\<lparr>sequence := remove1 oldest_key (sequence b1), dropped := dropped b1 + 1\<rparr>, b)
               \<in> measure (\<lambda>b. length (buf_entries b))"
    by (simp add: b1)
qed

declare enforce_cap.simps [simp del]

text \<open>\<open>clock\<close> is what \<open>self._clock()\<close> would return during the call.\<close>

definition add ::
  "string \<Rightarrow> (string \<times> 'v) list \<Rightarrow> int option \<Rightarrow> string option \<Rightarrow> string option \<Rightarrow> rat option
     \<Rightarrow> (string \<times> 'v) list option \<Rightarrow> rat \<Rightarrow> 'v DebounceBuffer
     \<Rightarrow> error option \<times> 'v DebounceBuffer" where
  "add key diff ver act eid ts ext clock b =
     (let now = (case ts of Some t \<Rightarrow> t | None \<Rightarrow> clock);
          entry = (case map_of (buf_entries b) key of
                     None \<Rightarrow> \<lparr>metric_key = key, first_seen = now, last_update = now,
                               entry_payload = [], entry_version = None, entry_actor = None,
                               event_ids = {}, extras = []\<rparr>
                   | Some e \<Rightarrow> e);
          b1 = (case map_of (buf_entries b) key of
                  None \<Rightarrow> b\<lparr>buf_entries := AList.update key entry (buf_entries b),
                             sequence := sequence b @ [key]\<rparr>
                | Some e \<Rightarrow> b);
          b2 = b1\<lparr>buf_entries :=
                    AList.update key (merge diff ver act eid (Some now) ext entry) (buf_entries b1)\<rparr>
      in case enforce_cap b2 of
           (Some err, b3) \<Rightarrow> (Some err, b3)
         | (None, b3) \<Rightarrow> (None, b3\<lparr>buffer_depth := int (length (buf_entries b3))\<rparr>))"

text \<open>A buffer holding one entry last updated at 10, for evaluating \<open>add\<close>.\<close>

definition one_entry_buffer :: "int DebounceBuffer" where
  "one_entry_buffer =
     \<lparr>window_seconds = 120, max_entries = 10,
      buf_entries = [(''metric-1'',
         \<lparr>metric_key = ''metric-1'', first_seen = 0, last_update = 10,
          entry_payload = [(''displayHigh'', 1800)], entry_version = Some 3, entry_actor = Some ''ingest'',
          event_ids = {''evt-1''}, extras = []\<rparr>)],
      sequence = [''metric-1''], dropped = 0, emitted = 0, buffer_depth = 1\<rparr>"

section \<open>Metadata repository (db/repository.py)\<close>

text \<open>
  A property value is \<open>Any\<close>: \<open>None\<close> is Python's \<open>None\<close>, every other value is
  of a type \<open>'v\<close>, and the builtins \<open>int\<close>, \<open>float\<close>, \<open>str\<close> and \<open>bool\<close>
  that coerce it are parameters (\<open>int\<close> and \<open>float\<close> may raise: \<open>None\<close>).
\<close>

record 'v MetricPropertyPayload =
  prop_metric_id :: int
  prop_key :: string
  prop_type :: string
  prop_value :: "'v option"

record MetricPayload =
  device_id :: int
  metric_payload_name :: string
  metric_uns_path :: string
  metric_datatype :: string

record 'v builtins =
  py_int :: "'v \<Rightarrow> int option"
  py_float :: "'v \<Rightarrow> rat option"
  py_str :: "'v \<Rightarrow> string"
  py_bool :: "'v \<Rightarrow> bool"

record columns =
  value_int :: "int option"
  value_long :: "int option"
  value_float :: "rat option"
  value_double :: "rat option"
  value_string :: "string option"
  value_bool :: "bool option"

definition allowed :: "string list" where
  "allowed = [''int'', ''long'', ''float'', ''double'', ''string'', ''boolean'']"

definition null_columns :: columns where
  "null_columns = \<lparr>value_int = None, value_long = None, value_float = None,
                    value_double = None, value_string = None, value_bool = None\<rparr>"

definition property_column_values ::
  "'v builtins \<Rightarrow> 'v MetricPropertyPayload \<Rightarrow> error + columns" where
  "property_column_values py payload =
     (if prop_type payload \<notin> set allowed
      then Inl (RepositoryError (''invalid property type: '' @ prop_type payload))
      else
        (let cols = null_columns; val = prop_value payload in
         if prop_type payload = ''int'' then
           (case val of
              None \<Rightarrow> Inr (cols\<lparr>value_int := None\<rparr>)
            | Some v \<Rightarrow> (case py_int py v of
                          None \<Rightarrow> Inl CoercionError
                        | Some n \<Rightarrow> Inr (cols\<lparr>value_int := Some n\<rparr>)))
         else if prop_type payload = ''long'' then
           (case val of
              None \<Rightarrow> Inr (cols\<lparr>value_long := None\<rparr>)
            | Some v \<Rightarrow> (case py_int py v of
                          None \<Rightarrow> Inl CoercionError
                        | Some n \<Rightarrow> Inr (cols\<lparr>value_long := Some n\<rparr>)))
         else if prop_type payload = ''float'' then
           (case val of
              None \<Rightarrow> Inr (cols\<lparr>value_float := None\<rparr>)
            | Some v \<Rightarrow> (case py_float py v of
                          None \<Rightarrow> Inl CoercionError
                        | Some x \<Rightarrow> Inr (cols\<lparr>value_float := Some x\<rparr>)))
         else if prop_type payload = ''double'' then
           (case val of
              None \<Rightarrow> Inr (cols\<lparr>value_double := None\<rparr>)
            | Some v \<Rightarrow> (case py_float py v of
                          None \<Rightarrow> Inl CoercionError
                        | Some x \<Rightarrow> Inr (cols\<lparr>value_double := Some x\<rparr>)))
         else if prop_type payload = ''string'' then
           (case val of
              None \<Rightarrow> Inr (cols\<lparr>value_string := None\<rparr>)
            | Some v \<Rightarrow> Inr (cols\<lparr>value_string := Some (py_str py v)\<rparr>))
         else if prop_type payload = ''boolean'' then
           (case val of
              None \<Rightarrow> Inr (cols\<lparr>value_bool := None\<rparr>)
            | Some v \<Rightarrow> Inr (cols\<lparr>value_bool := Some (py_bool py v)\<rparr>))
         else Inr cols))"

text \<open>
  The database is a collaborator.  The model records the statements the repository
  executes, with their parameters, in \<open>executed\<close>; what the database answers is given:
  \<open>accepts\<close> (does the driver run the statement or raise its \<open>Error\<close>), the row a
  lookup finds, the row count of a statement, the ids a metric lookup returns.  A property
  row is \<open>(metric_id, key, type, columns)\<close>, a metric row
  \<open>(device_id, name, uns_path, datatype)\<close>.
\<close>

type_synonym property_row = "int \<times> string \<times> string \<times> columns"
type_synonym metric_row = "int \<times> string \<times> string \<times> string"

datatype statement =
    SelectProperty int string
  | UpdateProperty property_row
  | InsertProperty property_row
  | InsertProperties "property_row list"
  | InsertMetrics "metric_row list"
  | SelectMetricIds int "string list"

record connection =
  accepts :: "statement \<Rightarrow> bool"
  find_property :: "int \<Rightarrow> string \<Rightarrow> property_row option"
  rowcount :: "statement \<Rightarrow> int"
  find_metric_ids :: "int \<Rightarrow> string list \<Rightarrow> (string \<times> int) list"
  executed :: "statement list"

definition execute :: "statement \<Rightarrow> connection \<Rightarrow> bool \<times> connection" where
  "execute st conn = (accepts conn st, conn\<lparr>executed := executed conn @ [st]\<rparr>)"

definition property_row_of :: "'v MetricPropertyPayload \<Rightarrow> columns \<Rightarrow> property_row" where
  "property_row_of payload cols = (prop_metric_id payload, prop_key payload, prop_type payload, cols)"

definition property_rows_equal :: "property_row \<Rightarrow> 'v MetricPropertyPayload \<Rightarrow> columns \<Rightarrow> bool" where
  "property_rows_equal existing payload cols =
     (case existing of (mid, k, ty, ecols) \<Rightarrow>
        ty = prop_type payload
        \<and> value_int ecols = value_int cols
        \<and> value_long ecols = value_long cols
        \<and> value_float ecols = value_float cols
        \<and> value_double ecols = value_double cols
        \<and> value_string ecols = value_string cols
        \<and> value_bool ecols = value_bool cols)"

datatype upsert_status = inserted | updated | noop

definition upsert_metric_property ::
  "'v builtins \<Rightarrow> 'v MetricPropertyPayload \<Rightarrow> connection
     \<Rightarrow> (error + upsert_status \<times> property_row) \<times> connection" where
  "upsert_metric_property py payload conn =
     (case property_column_values py payload of
        Inl e \<Rightarrow> (Inl e, conn)
      | Inr cols \<Rightarrow>
          (case execute (SelectProperty (prop_metric_id payload) (prop_key payload)) conn of
             (False, conn1) \<Rightarrow> (Inl (RepositoryError ''metric property upsert failed''), conn1)
           | (True, conn1) \<Rightarrow>
               (case find_property conn1 (prop_metric_id payload) (prop_key payload) of
                  Some existing \<Rightarrow>
                    if property_rows_equal existing payload cols then (Inr (noop, existing), conn1)
                    else
                      (case execute (UpdateProperty (property_row_of payload cols)) conn1 of
                         (False, conn2) \<Rightarrow>
                           (Inl (RepositoryError ''metric property upsert failed''), conn2)
                       | (True, conn2) \<Rightarrow> (Inr (updated, property_row_of payload cols), conn2))
                | None \<Rightarrow>
                    (case execute (InsertProperty (property_row_of payload cols)) conn1 of
                       (False, conn2) \<Rightarrow>
                         (Inl (RepositoryError ''metric property upsert failed''), conn2)
                     | (True, conn2) \<Rightarrow> (Inr (inserted, property_row_of payload cols), conn2)))))"

text \<open>\<open>items[start : start + size]\<close> for \<open>start\<close> in \<open>range(0, len(items), size)\<close>.\<close>

function batched :: "nat \<Rightarrow> 'a list \<Rightarrow> 'a list list" where
  "batched n items =
     (if n = 0 \<or> items = [] then []
      else take n items # batched n (drop n items))"
  by pat_completeness auto
termination
  by (relation "measure (\<lambda>(n, items). length items)") auto

declare batched.simps [simp del]

text \<open>
  \<open>grouped.setdefault(payload.metric_id, {})[payload.key] = payload\<close> over the input,
  then the payloads in the order of \<open>grouped.values()\<close> and of each inner \<open>values()\<close>.
\<close>

definition group_payload ::
  "'v MetricPropertyPayload \<Rightarrow> (int \<times> (string \<times> 'v MetricPropertyPayload) list) list
     \<Rightarrow> (int \<times> (string \<times> 'v MetricPropertyPayload) list) list" where
  "group_payload payload grouped =
     (let inner = (case map_of grouped (prop_metric_id payload) of None \<Rightarrow> [] | Some d \<Rightarrow> d)
      in AList.update (prop_metric_id payload) (AList.update (prop_key payload) payload inner) grouped)"

definition grouped_payloads :: "'v MetricPropertyPayload list \<Rightarrow> 'v MetricPropertyPayload list" where
  "grouped_payloads items = concat (map (\<lambda>(mid, inner). map snd inner) (fold group_payload items []))"

fun property_rows ::
  "'v builtins \<Rightarrow> 'v MetricPropertyPayload list \<Rightarrow> error + property_row list" where
  "property_rows py [] = Inr []"
| "property_rows py (payload # rest) =
     (case property_column_values py payload of
        Inl e \<Rightarrow> Inl e
      | Inr cols \<Rightarrow>
          (case property_rows py rest of
             Inl e \<Rightarrow> Inl e
           | Inr rows \<Rightarrow> Inr (property_row_of payload cols # rows)))"

fun insert_property_batches ::
  "property_row list list \<Rightarrow> int \<Rightarrow> connection \<Rightarrow> (error + int) \<times> connection" where
  "insert_property_batches [] total_rows conn = (Inr total_rows, conn)"
| "insert_property_batches (batch # rest) total_rows conn =
     (case execute (InsertProperties batch) conn of
        (False, conn1) \<Rightarrow> (Inl (RepositoryError ''metric property bulk upsert failed''), conn1)
      | (True, conn1) \<Rightarrow>
          insert_property_batches rest (total_rows + rowcount conn1 (InsertProperties batch)) conn1)"

definition upsert_metric_properties_bulk ::
  "'v builtins \<Rightarrow> 'v MetricPropertyPayload list \<Rightarrow> int \<Rightarrow> connection
     \<Rightarrow> (error + int) \<times> connection" where
  "upsert_metric_properties_bulk py payloads batch_size conn =
     (if batch_size \<le> 0 then (Inl (ValueError ''batch_size must be positive''), conn)
      else if payloads = [] then (Inr 0, conn)
      else
        (case property_rows py (grouped_payloads payloads) of
           Inl e \<Rightarrow> (Inl e, conn)
         | Inr rows \<Rightarrow>
             if rows = [] then (Inr 0, conn)
             else insert_property_batches (batched (nat batch_size) rows) 0 conn))"

definition metric_row_of :: "MetricPayload \<Rightarrow> metric_row" where
  "metric_row_of p = (device_id p, metric_payload_name p, metric_uns_path p, metric_datatype p)"

fun insert_metric_batches ::
  "MetricPayload list list \<Rightarrow> (string \<times> int) list \<Rightarrow> connection
     \<Rightarrow> (error + (string \<times> int) list) \<times> connection" where
  "insert_metric_batches [] id_map conn = (Inr id_map, conn)"
| "insert_metric_batches (batch_items # rest) id_map conn =
     (let rows = map metric_row_of batch_items in
      case execute (InsertMetrics rows) conn of
        (False, conn1) \<Rightarrow> (Inl (RepositoryError ''metric bulk upsert failed''), conn1)
      | (True, conn1) \<Rightarrow>
          (let names = map metric_payload_name batch_items;
               first_device_id = device_id (hd batch_items)
           in case execute (SelectMetricIds first_device_id names) conn1 of
                (False, conn2) \<Rightarrow> (Inl (RepositoryError ''metric bulk upsert failed''), conn2)
              | (True, conn2) \<Rightarrow>
                  insert_metric_batches rest
                    (fold (\<lambda>(name, metric_id) m. AList.update name metric_id m)
                       (find_metric_ids conn2 first_device_id names) id_map)
                    conn2))"

definition upsert_metrics_bulk ::
  "MetricPayload list \<Rightarrow> int \<Rightarrow> connection \<Rightarrow> (error + (string \<times> int) list) \<times> connection" where
  "upsert_metrics_bulk payloads batch_size conn =
     (if batch_size \<le> 0 then (Inl (ValueError ''batch_size must be positive''), conn)
      else if payloads = [] then (Inr [], conn)
      else insert_metric_batches (batched (nat batch_size) payloads) [] conn)"

text \<open>
  The typing rule as the specification words it: the names of the non-null value columns
  of a row, and the column that belongs to a declared type.
\<close>

definition non_null_columns :: "columns \<Rightarrow> string list" where
  "non_null_columns cols =
     (if value_int cols \<noteq> None then [''value_int''] else []) @
     (if value_long cols \<noteq> None then [''value_long''] else []) @
     (if value_float cols \<noteq> None then [''value_float''] else []) @
     (if value_double cols \<noteq> None then [''value_double''] else []) @
     (if value_string cols \<noteq> None then [''value_string''] else []) @
     (if value_bool cols \<noteq> None then [''value_bool''] else [])"

definition column_of_type :: "string \<Rightarrow> string" where
  "column_of_type ty =
     (if ty = ''int'' then ''value_int''
      else if ty = ''long'' then ''value_long''
      else if ty = ''float'' then ''value_float''
      else if ty = ''double'' then ''value_double''
      else if ty = ''string'' then ''value_string''
      else ''value_bool'')"

text \<open>The property rows among the parameters of a statement.\<close>

fun rows_of :: "statement \<Rightarrow> property_row list" where
  "rows_of (UpdateProperty row) = [row]"
| "rows_of (InsertProperty row) = [row]"
| "rows_of (InsertProperties rows) = rows"
| "rows_of _ = []"

text \<open>Concrete inputs: builtins over integer values, a database that accepts everything.\<close>

definition int_builtins :: "int builtins" where
  "int_builtins = \<lparr>py_int = Some, py_float = (\<lambda>n. Some (of_int n)),
                    py_str = (\<lambda>n. ''n''), py_bool = (\<lambda>n. n \<noteq> 0)\<rparr>"

definition accept_all :: "statement \<Rightarrow> bool" where
  "accept_all st = True"

definition no_property :: "int \<Rightarrow> string \<Rightarrow> property_row option" where
  "no_property mid k = None"

definition one_row :: "statement \<Rightarrow> int" where
  "one_row st = 1"

definition no_ids :: "int \<Rightarrow> string list \<Rightarrow> (string \<times> int) list" where
  "no_ids dev names = []"

definition empty_db :: connection where
  "empty_db = \<lparr>accepts = accept_all, find_property = no_property, rowcount = one_row,
               find_metric_ids = no_ids, executed = []\<rparr>"

definition null_int_property :: "int MetricPropertyPayload" where
  "null_int_property = \<lparr>prop_metric_id = 1, prop_key = ''precision'', prop_type = ''int'',
                         prop_value = None\<rparr>"

definition int_property :: "int MetricPropertyPayload" where
  "int_property = \<lparr>prop_metric_id = 1, prop_key = ''precision'', prop_type = ''int'',
                    prop_value = Some 4\<rparr>"

definition bad_type_property :: "int MetricPropertyPayload" where
  "bad_type_property = \<lparr>prop_metric_id = 1, prop_key = ''unit'', prop_type = ''uint32'',
                         prop_value = Some 4\<rparr>"

definition metric_first :: MetricPayload where
  "metric_first = \<lparr>device_id = 1, metric_payload_name = ''temperature'',
                    metric_uns_path = ''G/E/D/temperature'', metric_datatype = ''double''\<rparr>"

definition metric_again :: MetricPayload where
  "metric_again = \<lparr>device_id = 1, metric_payload_name = ''temperature'',
                    metric_uns_path = ''G/E/D/temperature'', metric_datatype = ''float''\<rparr>"

text \<open>
  The statements a call has executed: those added to the log.  A row is typed for a list
  of payloads when it renders one of them: it carries that payload's key and type, the type
  is an allowed one, no value column other than the one of the type is non-null, and that
  one is non-null exactly when the payload's value is not \<open>None\<close>.
\<close>

definition issued :: "connection \<Rightarrow> connection \<Rightarrow> statement list" where
  "issued before after = drop (length (executed before)) (executed after)"

definition typed_row :: "'v MetricPropertyPayload list \<Rightarrow> property_row \<Rightarrow> bool" where
  "typed_row payloads row =
     (\<exists>payload \<in> set payloads. \<exists>cols.
        row = property_row_of payload cols \<and>
        prop_type payload \<in> set allowed \<and>
        non_null_columns cols =
          (if prop_value payload = None then [] else [column_of_type (prop_type payload)]))"

section \<open>Alias cache (\<open>alias_cache.py\<close>)\<close>

text \<open>
  The registry maps \<open>(group, edge_node, device)\<close> to a map from alias numbers to alias
  infos; the infos are of any type \<open>'i\<close>.  Both levels are dictionaries, association
  lists here.
\<close>

type_synonym AliasKey = "string \<times> string \<times> string option"
type_synonym 'i AliasMap = "(int \<times> 'i) list"
type_synonym 'i AliasRegistry = "(AliasKey \<times> 'i AliasMap) list"

text \<open>
  Python's \<open>str\<close> of an integer: the decimal digits, with a leading minus sign for a
  negative number.
\<close>

definition digit_char :: "nat \<Rightarrow> char" where
  "digit_char d = char_of (48 + d)"

function str_nat :: "nat \<Rightarrow> string" where
  "str_nat n = (if n < 10 then [digit_char n] else str_nat (n div 10) @ [digit_char (n mod 10)])"
  by pat_completeness auto
termination
  by (relation "measure (\<lambda>n. n)") auto

declare str_nat.simps [simp del]

definition str_of_int :: "int \<Rightarrow> string" where
  "str_of_int i = (if i < 0 then CHR ''-'' # str_nat (nat (- i)) else str_nat (nat i))"

text \<open>
  Python's \<open>int\<close> of a string: surrounding whitespace is stripped, a sign may lead, and
  decimal digits follow; anything else raises \<open>ValueError\<close> (\<open>None\<close>).  The underscores
  and the non-ASCII digits that \<open>int\<close> also accepts are left out.
\<close>

definition is_digit :: "char \<Rightarrow> bool" where
  "is_digit c = (48 \<le> (of_char c :: nat) \<and> (of_char c :: nat) \<le> 57)"

definition digit_val :: "char \<Rightarrow> nat" where
  "digit_val c = of_char c - 48"

definition is_space :: "char \<Rightarrow> bool" where
  "is_space c = ((of_char c :: nat) \<in> {9, 10, 11, 12, 13, 32})"

definition strip :: "string \<Rightarrow> string" where
  "strip s = rev (dropWhile is_space (rev (dropWhile is_space s)))"

definition parse_digits :: "string \<Rightarrow> nat option" where
  "parse_digits s =
     (if s \<noteq> [] \<and> list_all is_digit s
      then Some (foldl (\<lambda>acc c. 10 * acc + digit_val c) 0 s)
      else None)"

definition int_of_str :: "string \<Rightarrow> int option" where
  "int_of_str s =
     (case strip s of
        [] \<Rightarrow> None
      | c # cs \<Rightarrow>
          if c = CHR ''-'' then map_option (\<lambda>n. - int n) (parse_digits cs)
          else if c = CHR ''+'' then map_option int (parse_digits cs)
          else map_option int (parse_digits (c # cs)))"

text \<open>\<open>s.split(sep, maxsplit)\<close> for a separator of one character.\<close>

fun split_max :: "char \<Rightarrow> nat \<Rightarrow> string \<Rightarrow> string list" where
  "split_max sep 0 s = [s]"
| "split_max sep (Suc n) s =
     (if sep \<in> set s
      then takeWhile (\<lambda>c. c \<noteq> sep) s # split_max sep n (tl (dropWhile (\<lambda>c. c \<noteq> sep) s))
      else [s])"

definition composite_key :: "AliasKey \<Rightarrow> string" where
  "composite_key k =
     (case k of (grp, edge_node, device) \<Rightarrow>
        (let device_token = (case device of None \<Rightarrow> [] | Some d \<Rightarrow> d)
         in grp @ ''|'' @ edge_node @ ''|'' @ device_token))"

definition serialize_entries :: "'i AliasMap \<Rightarrow> (string \<times> 'i) list" where
  "serialize_entries alias_entries =
     fold (\<lambda>(alias, info) d. AList.update (str_of_int alias) info d) alias_entries []"

definition serialize_alias_maps :: "'i AliasRegistry \<Rightarrow> (string \<times> (string \<times> 'i) list) list" where
  "serialize_alias_maps alias_maps =
     fold (\<lambda>(k, alias_entries) serialised.
             AList.update (composite_key k) (serialize_entries alias_entries) serialised)
       alias_maps []"

fun deserialize_entries :: "(string \<times> 'i) list \<Rightarrow> 'i AliasMap \<Rightarrow> error + 'i AliasMap" where
  "deserialize_entries [] acc = Inr acc"
| "deserialize_entries ((alias, info) # rest) acc =
     (case int_of_str alias of
        None \<Rightarrow> Inl (ValueError ''invalid literal for int() with base 10'')
      | Some a \<Rightarrow> deserialize_entries rest (AList.update a info acc))"

fun deserialize_items ::
  "(string \<times> (string \<times> 'i) list) list \<Rightarrow> 'i AliasRegistry \<Rightarrow> error + 'i AliasRegistry" where
  "deserialize_items [] alias_maps = Inr alias_maps"
| "deserialize_items ((composite, alias_entries) # rest) alias_maps =
     (case split_max (CHR ''|'') 2 composite of
        [grp, edge_node, device_token] \<Rightarrow>
          (let device = (if device_token = [] then None else Some device_token) in
           case deserialize_entries alias_entries [] of
             Inl e \<Rightarrow> Inl e
           | Inr aliases \<Rightarrow>
               deserialize_items rest (AList.update (grp, edge_node, device) aliases alias_maps))
      | _ \<Rightarrow> Inl (ValueError ''not enough values to unpack (expected 3)''))"

definition deserialize_alias_maps ::
  "(string \<times> (string \<times> 'i) list) list \<Rightarrow> error + 'i AliasRegistry" where
  "deserialize_alias_maps data = deserialize_items data []"

text \<open>
  The keys the round trip is claimed for: no \<open>|\<close> in group and edge node, and a device
  that is \<open>None\<close> or a non-empty string.
\<close>

definition valid_key :: "AliasKey \<Rightarrow> bool" where
  "valid_key k =
     (case k of (grp, edge_node, device) \<Rightarrow>
        CHR ''|'' \<notin> set grp \<and> CHR ''|'' \<notin> set edge_node \<and> device \<noteq> Some [])"

text \<open>A registry like the one of the unit test, and one with an empty device name.\<close>

definition sample_registry :: "string AliasRegistry" where
  "sample_registry =
     [((''Secil'', ''EdgeNode'', Some ''Device|A''), [(7, ''pump_state''), (- 12, ''flow'')]),
      ((''Secil'', ''EdgeNode'', None), [(5, ''node_temp'')])]"

definition empty_device_registry :: "string AliasRegistry" where
  "empty_device_registry = [((''Secil'', ''EdgeNode'', Some []), [(5, ''node_temp'')])]"

section \<open>Checkpoint theorems\<close>

lemma mem_load_mem_save:
  "mem_load (mem_save slot lsn s) slot =
     (case mem_load s slot of None \<Rightarrow> Some lsn | Some c \<Rightarrow> Some (max c lsn))"
  by (simp add: mem_load_def mem_save_def max_def split: option.splits)

lemma load_save:
  "load (snd (save ok slot lsn s)) slot =
     (case load s slot of None \<Rightarrow> Some lsn | Some c \<Rightarrow> Some (max c lsn))"
  by (simp add: load_def save_def write_locked_def max_def split: option.splits)

lemma mem_load_mem_saves:
  "mem_load (mem_saves slot lsns s) slot = max_position (mem_load s slot) lsns"
  unfolding mem_saves_def max_position_def
  by (induction lsns arbitrary: s) (simp_all add: mem_load_mem_save)

lemma load_saves:
  "load (saves slot calls s) slot = max_position (load s slot) (map snd calls)"
proof (induction calls arbitrary: s)
  case Nil
  show ?case by (simp add: saves_def max_position_def)
next
  case (Cons call calls)
  obtain ok lsn where call: "call = (ok, lsn)" by (cases call)
  have "load (saves slot (call # calls) s) slot
          = load (saves slot calls (snd (save ok slot lsn s))) slot"
    by (simp add: saves_def call)
  also have "\<dots> = max_position (load (snd (save ok slot lsn s)) slot) (map snd calls)"
    by (rule Cons.IH)
  also have "\<dots> = max_position (load s slot) (map snd (call # calls))"
    by (simp add: load_save max_position_def call)
  finally show ?case .
qed

lemma max_position_None:
  "lsns \<noteq> [] \<Longrightarrow> max_position None lsns = Some (Max (set lsns))"
  and max_position_Some: "max_position (Some c) lsns = Some (Max (set (c # lsns)))"
proof -
  have some: "max_position (Some c) lsns = Some (Max (set (c # lsns)))" for c lsns
    unfolding max_position_def
  proof (induction lsns arbitrary: c)
    case Nil
    show ?case by simp
  next
    case (Cons x xs)
    have "Max (insert (max c x) (set xs)) = Max (insert c (insert x (set xs)))"
      by (cases "set xs = {}") (simp_all add: max.assoc)
    with Cons show ?case by simp
  qed
  show "max_position (Some c) lsns = Some (Max (set (c # lsns)))" by (rule some)
  show "lsns \<noteq> [] \<Longrightarrow> max_position None lsns = Some (Max (set lsns))"
  proof (cases lsns)
    case Nil
    assume "lsns \<noteq> []"
    with Nil show ?thesis by simp
  next
    case (Cons x xs)
    have "max_position None (x # xs) = max_position (Some x) xs"
      by (simp add: max_position_def)
    with Cons show ?thesis by (simp add: some)
  qed
qed

text \<open>
  C1.  Checkpoint monotonicity.  For the in-memory and the persistent store, after the calls
  \<open>save(slot, lsn_1), ..., save(slot, lsn_n)\<close> (\<open>n \<ge> 1\<close>, no reset in between)
  \<open>load(slot)\<close> returns the maximum of the saved positions, the position stored before the
  first call (if there was one) counting as an earlier save; on a store that held nothing
  for the slot it is \<open>max(lsn_1..lsn_n)\<close>.  For the persistent store this holds whether or
  not the writes to disk succeed.  A save whose lsn is at most the stored position leaves
  the store unchanged.
\<close>

theorem checkpoint_monotonicity:
  "(lsns \<noteq> [] \<longrightarrow>
      mem_load (mem_saves slot lsns mem_init) slot = Some (Max (set lsns)) \<and>
      (mem_load m slot = None \<longrightarrow> mem_load (mem_saves slot lsns m) slot = Some (Max (set lsns))) \<and>
      (\<forall>c. mem_load m slot = Some c \<longrightarrow>
           mem_load (mem_saves slot lsns m) slot = Some (Max (set (c # lsns))))) \<and>
   (calls \<noteq> [] \<longrightarrow>
      (load p slot = None \<longrightarrow>
         load (saves slot calls p) slot = Some (Max (set (map snd calls)))) \<and>
      (\<forall>c. load p slot = Some c \<longrightarrow>
           load (saves slot calls p) slot = Some (Max (set (c # map snd calls))))) \<and>
   (\<forall>c. mem_load m slot = Some c \<and> lsn \<le> c \<longrightarrow> mem_save slot lsn m = m) \<and>
   (\<forall>c. load p slot = Some c \<and> lsn \<le> c \<longrightarrow> save ok slot lsn p = (None, p))"
proof -
  have a: "mem_load mem_init slot = None"
    by (simp add: mem_load_def mem_init_def)
  have m1: "lsns \<noteq> [] \<Longrightarrow> mem_load (mem_saves slot lsns mem_init) slot = Some (Max (set lsns))"
    by (simp add: mem_load_mem_saves a max_position_None)
  have m2: "lsns \<noteq> [] \<Longrightarrow> mem_load m slot = None \<Longrightarrow>
              mem_load (mem_saves slot lsns m) slot = Some (Max (set lsns))"
    by (simp add: mem_load_mem_saves max_position_None)
  have m3: "mem_load m slot = Some c \<Longrightarrow>
              mem_load (mem_saves slot lsns m) slot = Some (Max (set (c # lsns)))" for c
    by (simp only: mem_load_mem_saves max_position_Some)
  have p2: "calls \<noteq> [] \<Longrightarrow> load p slot = None \<Longrightarrow>
              load (saves slot calls p) slot = Some (Max (set (map snd calls)))"
    by (simp add: load_saves max_position_None)
  have p3: "load p slot = Some c \<Longrightarrow>
              load (saves slot calls p) slot = Some (Max (set (c # map snd calls)))" for c
    by (simp only: load_saves max_position_Some)
  have u1: "mem_load m slot = Some c \<Longrightarrow> lsn \<le> c \<Longrightarrow> mem_save slot lsn m = m" for c
    by (simp add: mem_load_def mem_save_def)
  have u2: "load p slot = Some c \<Longrightarrow> lsn \<le> c \<Longrightarrow> save ok slot lsn p = (None, p)" for c
    by (simp add: load_def save_def)
  show ?thesis
    using m1 m2 m3 p2 p3 u1 u2 by blast
qed

theorem checkpoint_monotonicity_witness:
  "mem_load (mem_saves ''slot'' [5, 3, 9] mem_init) ''slot'' = Some 9 \<and>
   mem_load (mem_saves ''slot'' [5, 3, 9] (mem_save ''slot'' 20 mem_init)) ''slot'' = Some 20 \<and>
   load (saves ''slot'' [(True, 5), (False, 9), (True, 3)] (load_from_disk None)) ''slot'' = Some 9 \<and>
   load (saves ''slot'' [(True, 5), (False, 9), (True, 3)]
           (load_from_disk (Some [''slot'' \<mapsto> 7]))) ''slot'' = Some 9 \<and>
   mem_save ''slot'' 4 (mem_save ''slot'' 20 mem_init) = mem_save ''slot'' 20 mem_init \<and>
   save False ''slot'' 4 (load_from_disk (Some [''slot'' \<mapsto> 7]))
     = (None, load_from_disk (Some [''slot'' \<mapsto> 7]))"
  using checkpoint_monotonicity [where lsns = "[5, 3, 9]" and slot = "''slot''"
      and m = "mem_save ''slot'' 20 mem_init"
      and calls = "[(True, 5), (False, 9), (True, 3)]"
      and p = "load_from_disk (Some [''slot'' \<mapsto> 7])" and lsn = 4 and ok = False]
    checkpoint_monotonicity [where lsns = "[5, 3, 9]" and slot = "''slot''"
      and m = "mem_init"
      and calls = "[(True, 5), (False, 9), (True, 3)]"
      and p = "load_from_disk None" and lsn = 4 and ok = False]
  by (simp add: mem_load_def mem_save_def mem_init_def load_def load_from_disk_def)

text \<open>
  C8.  Manual reset preconditions.  For both stores, \<open>reset\<close> without \<open>force\<close>
  raises \<open>ValueError\<close> exactly when the expected position differs from the stored one
  (\<open>None\<close> standing for "no position" on both sides) or a supplied new position is
  strictly greater than the stored one; the store is then unchanged.  With \<open>force\<close> no
  \<open>ValueError\<close> is raised.
\<close>

theorem reset_preconditions:
  "((\<exists>msg. fst (mem_reset slot expected new False m) = Some (ValueError msg)) \<longleftrightarrow>
      (expected \<noteq> mem_load m slot \<or>
       (\<exists>c n. mem_load m slot = Some c \<and> new = Some n \<and> n > c))) \<and>
   ((expected \<noteq> mem_load m slot \<or>
       (\<exists>c n. mem_load m slot = Some c \<and> new = Some n \<and> n > c)) \<longrightarrow>
      snd (mem_reset slot expected new False m) = m) \<and>
   fst (mem_reset slot expected new True m) = None \<and>
   ((\<exists>msg. fst (reset ok slot expected new False p) = Some (ValueError msg)) \<longleftrightarrow>
      (expected \<noteq> load p slot \<or>
       (\<exists>c n. load p slot = Some c \<and> new = Some n \<and> n > c))) \<and>
   ((expected \<noteq> load p slot \<or>
       (\<exists>c n. load p slot = Some c \<and> new = Some n \<and> n > c)) \<longrightarrow>
      snd (reset ok slot expected new False p) = p) \<and>
   (\<forall>msg. fst (reset ok slot expected new True p) \<noteq> Some (ValueError msg))"
proof -
  have a: "(\<exists>msg. fst (mem_reset slot expected new False m) = Some (ValueError msg)) \<longleftrightarrow>
      (expected \<noteq> mem_load m slot \<or>
       (\<exists>c n. mem_load m slot = Some c \<and> new = Some n \<and> n > c))"
    by (cases "mem_positions m slot"; cases new; cases expected)
       (auto simp: mem_reset_def mem_load_def)
  have b: "(expected \<noteq> mem_load m slot \<or>
       (\<exists>c n. mem_load m slot = Some c \<and> new = Some n \<and> n > c)) \<Longrightarrow>
      snd (mem_reset slot expected new False m) = m"
    by (cases "mem_positions m slot"; cases new; cases expected)
       (auto simp: mem_reset_def mem_load_def)
  have c: "fst (mem_reset slot expected new True m) = None"
    by (cases "mem_positions m slot"; cases new)
       (auto simp: mem_reset_def)
  have d: "(\<exists>msg. fst (reset ok slot expected new False p) = Some (ValueError msg)) \<longleftrightarrow>
      (expected \<noteq> load p slot \<or>
       (\<exists>c n. load p slot = Some c \<and> new = Some n \<and> n > c))"
    by (cases "positions p slot"; cases new; cases expected)
       (auto simp: reset_def load_def write_locked_def)
  have e: "(expected \<noteq> load p slot \<or>
       (\<exists>c n. load p slot = Some c \<and> new = Some n \<and> n > c)) \<Longrightarrow>
      snd (reset ok slot expected new False p) = p"
    by (cases "positions p slot"; cases new; cases expected)
       (auto simp: reset_def load_def write_locked_def)
  have f: "fst (reset ok slot expected new True p) \<noteq> Some (ValueError msg)" for msg
    by (cases "positions p slot"; cases new)
       (auto simp: reset_def write_locked_def)
  show ?thesis using a b c d e f by blast
qed

theorem reset_preconditions_witness:
  "fst (mem_reset ''slot'' (Some 150) None False (mem_save ''slot'' 200 mem_init))
      = Some (ValueError ''unexpected resume token value'') \<and>
   snd (mem_reset ''slot'' (Some 150) None False (mem_save ''slot'' 200 mem_init))
      = mem_save ''slot'' 200 mem_init \<and>
   fst (reset True ''slot'' (Some 200) (Some 300) False (load_from_disk (Some [''slot'' \<mapsto> 200])))
      = Some (ValueError ''new resume token must not exceed current value'') \<and>
   snd (reset True ''slot'' (Some 200) (Some 300) False (load_from_disk (Some [''slot'' \<mapsto> 200])))
      = load_from_disk (Some [''slot'' \<mapsto> 200])"
  using reset_preconditions [where slot = "''slot''" and expected = "Some 150" and new = None
      and m = "mem_save ''slot'' 200 mem_init" and ok = True
      and p = "load_from_disk (Some [''slot'' \<mapsto> 200])"]
    reset_preconditions [where slot = "''slot''" and expected = "Some 200" and new = "Some 300"
      and m = "mem_save ''slot'' 200 mem_init" and ok = True
      and p = "load_from_disk (Some [''slot'' \<mapsto> 200])"]
  by (simp add: mem_reset_def reset_def mem_load_def mem_save_def mem_init_def load_def Let_def
      load_from_disk_def)

section \<open>Diff accumulator theorems\<close>

lemma map_of_merge_change:
  "map_of (merge_change ver (key, val) merged) k =
     (if k = key
      then (case map_of merged key of
              None \<Rightarrow> Some (ver, val)
            | Some current \<Rightarrow> if fst current \<le> ver then Some (ver, val) else Some current)
      else map_of merged k)"
  by (simp add: merge_change_def update_conv' split: option.splits)

lemma map_of_merge_other:
  "k \<notin> fst ` set chs \<Longrightarrow> map_of (fold (merge_change ver) chs merged) k = map_of merged k"
proof (induction chs arbitrary: merged)
  case Nil
  show ?case by simp
next
  case (Cons ch chs)
  obtain key val where ch: "ch = (key, val)" by (cases ch)
  from Cons.prems have "k \<noteq> key" and "k \<notin> fst ` set chs" by (auto simp: ch)
  then show ?case by (simp add: Cons.IH ch map_of_merge_change)
qed

lemma map_of_merge_changes:
  assumes "distinct (map fst chs)" and "map_of chs k = Some val"
  shows "map_of (fold (merge_change ver) chs merged) k =
           (case map_of merged k of
              None \<Rightarrow> Some (ver, val)
            | Some current \<Rightarrow> if fst current \<le> ver then Some (ver, val) else Some current)"
  using assms
proof (induction chs arbitrary: merged)
  case Nil
  then show ?case by simp
next
  case (Cons ch chs)
  obtain key v where ch: "ch = (key, v)" by (cases ch)
  show ?case
  proof (cases "k = key")
    case True
    then have v: "v = val" using Cons.prems(2) by (simp add: ch)
    have "k \<notin> fst ` set chs" using Cons.prems(1) True by (simp add: ch)
    then show ?thesis by (simp add: map_of_merge_other ch map_of_merge_change True v)
  next
    case False
    then have "map_of chs k = Some val" using Cons.prems(2) by (simp add: ch)
    moreover have "distinct (map fst chs)" using Cons.prems(1) by simp
    ultimately show ?thesis
      using False by (simp add: Cons.IH ch map_of_merge_change)
  qed
qed

lemma map_of_snap_changes:
  "map_of (map (\<lambda>(key, (ver, val)). (key, val)) merged) k = map_option snd (map_of merged k)"
  by (induction merged) auto

lemma sort_key_empty: "sort_key f xs = [] \<longleftrightarrow> xs = []"
  using length_sort [of f xs] by (metis length_0_conv)

lemma exposed_change_apply:
  assumes "event_id event \<notin> seen_event_ids acc"
  shows "exposed_change (snd (apply_event event acc)) (uns_path event) k =
           map_option snd
             (map_of (fold (merge_change (version event)) (changes event)
                (case map_of (entries acc) (uns_path event) of
                   None \<Rightarrow> [] | Some e \<Rightarrow> merged_changes e)) k)"
  using assms
  by (simp add: exposed_change_def snapshot_of_def apply_event_def Let_def update_conv'
      to_snapshot_def append_event_def map_of_snap_changes sort_key_empty split: option.splits)


text \<open>
  C2 (as amended).  Two events with distinct, not yet seen event ids are applied one after
  the other to the same path, and both carry the change key \<open>k\<close>; nothing merged before
  for \<open>k\<close> has a version above both.  Then the snapshot exposes for \<open>k\<close> the value of
  the event with the higher version, and when the versions are equal the value of the event
  applied second.
\<close>

theorem diff_merge_higher_version_wins:
  assumes ids: "event_id e1 \<noteq> event_id e2" "event_id e1 \<notin> seen_event_ids acc"
      "event_id e2 \<notin> seen_event_ids acc"
    and path: "uns_path e1 = path" "uns_path e2 = path"
    and dict: "distinct (map fst (changes e1))" "distinct (map fst (changes e2))"
    and key: "map_of (changes e1) k = Some v1" "map_of (changes e2) k = Some v2"
    and prior: "\<forall>entry ver val. map_of (entries acc) path = Some entry \<and>
                  map_of (merged_changes entry) k = Some (ver, val)
                  \<longrightarrow> ver \<le> max (version e1) (version e2)"
  shows "fst (apply_event e1 acc) \<and> fst (apply_event e2 (snd (apply_event e1 acc))) \<and>
         exposed_change (snd (apply_event e2 (snd (apply_event e1 acc)))) path k
           = Some (if version e1 \<le> version e2 then v2 else v1)"
proof -
  let ?acc1 = "snd (apply_event e1 acc)"
  let ?m0 = "case map_of (entries acc) path of None \<Rightarrow> [] | Some e \<Rightarrow> merged_changes e"
  let ?m1 = "fold (merge_change (version e1)) (changes e1) ?m0"
  have applied1: "fst (apply_event e1 acc)"
    using ids(2) by (simp add: apply_event_def Let_def)
  have seen: "event_id e2 \<notin> seen_event_ids ?acc1"
    using ids by (simp add: apply_event_def Let_def)
  have applied2: "fst (apply_event e2 ?acc1)"
    using seen by (simp add: apply_event_def Let_def)
  have entry1: "map_of (entries ?acc1) path
                  = Some (append_event e1 (case map_of (entries acc) path of
                       None \<Rightarrow> \<lparr>agg_uns_path = path, events = [], merged_changes = []\<rparr>
                     | Some e \<Rightarrow> e))"
    using ids(2) path(1)
    by (cases "map_of (entries acc) path") (simp_all add: apply_event_def Let_def update_conv')
  have m1: "(case map_of (entries ?acc1) (uns_path e2) of
               None \<Rightarrow> [] | Some e \<Rightarrow> merged_changes e) = ?m1"
    by (simp add: path entry1 append_event_def split: option.splits)
  have k1: "map_of ?m1 k =
              (case map_of ?m0 k of
                 None \<Rightarrow> Some (version e1, v1)
               | Some current \<Rightarrow>
                   if fst current \<le> version e1 then Some (version e1, v1) else Some current)"
    by (rule map_of_merge_changes [OF dict(1) key(1)])
  have k2: "map_of (fold (merge_change (version e2)) (changes e2) ?m1) k =
              (case map_of ?m1 k of
                 None \<Rightarrow> Some (version e2, v2)
               | Some current \<Rightarrow>
                   if fst current \<le> version e2 then Some (version e2, v2) else Some current)"
    by (rule map_of_merge_changes [OF dict(2) key(2)])
  have bound: "ver \<le> max (version e1) (version e2)" if "map_of ?m0 k = Some (ver, val)" for ver val
    using that prior by (cases "map_of (entries acc) path") auto
  have final: "map_option snd (map_of (fold (merge_change (version e2)) (changes e2) ?m1) k)
                 = Some (if version e1 \<le> version e2 then v2 else v1)"
  proof (cases "map_of ?m0 k")
    case None
    then show ?thesis unfolding k2 k1 by simp
  next
    case (Some current)
    obtain ver val where cur: "current = (ver, val)" by (cases current)
    have "ver \<le> max (version e1) (version e2)"
      using bound Some cur by simp
    then show ?thesis
      unfolding k2 k1 Some cur by (auto simp: max_def)
  qed
  have "exposed_change (snd (apply_event e2 ?acc1)) path k
          = map_option snd (map_of (fold (merge_change (version e2)) (changes e2) ?m1) k)"
    using exposed_change_apply [OF seen, of k] by (simp only: path m1 [unfolded path])
  with final applied1 applied2 show ?thesis by simp
qed

theorem diff_merge_higher_version_wins_witness:
  "exposed_change (snd (apply_event out_of_order_second
      (snd (apply_event tie_first DiffAccumulator_init)))) ''Plant/Kiln/T1'' ''displayHigh''
     = Some 1800 \<and>
   exposed_change (snd (apply_event tie_first
      (snd (apply_event out_of_order_second DiffAccumulator_init)))) ''Plant/Kiln/T1'' ''displayHigh''
     = Some 1800 \<and>
   exposed_change (snd (apply_event tie_second (snd (apply_event out_of_order_second
      (snd (apply_event tie_first DiffAccumulator_init)))))) ''Plant/Kiln/T1'' ''displayHigh''
     = Some 1750"
  using diff_merge_higher_version_wins [where ?e1.0 = tie_first and ?e2.0 = out_of_order_second
      and acc = DiffAccumulator_init and path = "''Plant/Kiln/T1''" and k = "''displayHigh''"
      and ?v1.0 = 1800 and ?v2.0 = 1950]
    diff_merge_higher_version_wins [where ?e1.0 = out_of_order_second and ?e2.0 = tie_first
      and acc = DiffAccumulator_init and path = "''Plant/Kiln/T1''" and k = "''displayHigh''"
      and ?v1.0 = 1950 and ?v2.0 = 1800]
    diff_merge_higher_version_wins [where ?e1.0 = out_of_order_second and ?e2.0 = tie_second
      and acc = "snd (apply_event tie_first DiffAccumulator_init)"
      and path = "''Plant/Kiln/T1''" and k = "''displayHigh''"
      and ?v1.0 = 1950 and ?v2.0 = 1750]
  by (simp add: tie_first_def tie_second_def out_of_order_second_def DiffAccumulator_init_def
      apply_event_def append_event_def merge_change_def Let_def)

text \<open>
  The claim as stated (on equal versions the value of the first-applied event is kept)
  fails: both events have version 5, and the snapshot exposes the value of the second.
\<close>

theorem diff_merge_tie_counterexample:
  "event_id tie_first \<noteq> event_id tie_second \<and>
   uns_path tie_first = uns_path tie_second \<and>
   version tie_first = version tie_second \<and>
   map_of (changes tie_first) ''displayHigh'' = Some 1800 \<and>
   map_of (changes tie_second) ''displayHigh'' = Some 1750 \<and>
   exposed_change (snd (apply_event tie_second
      (snd (apply_event tie_first DiffAccumulator_init)))) ''Plant/Kiln/T1'' ''displayHigh''
     = Some 1750"
  by (simp add: tie_first_def tie_second_def DiffAccumulator_init_def exposed_change_def
      snapshot_of_def apply_event_def append_event_def merge_change_def to_snapshot_def Let_def)

section \<open>Debounce buffer theorems\<close>

lemma map_of_dict_update_other:
  "k \<notin> fst ` set new \<Longrightarrow> map_of (dict_update new old) k = map_of old k"
  unfolding dict_update_def
  by (induction new arbitrary: old) (auto simp: update_conv')

lemma map_of_dict_update:
  "distinct (map fst new) \<Longrightarrow>
     map_of (dict_update new old) k =
       (case map_of new k of Some v \<Rightarrow> Some v | None \<Rightarrow> map_of old k)"
proof (induction new arbitrary: old)
  case Nil
  show ?case by (simp add: dict_update_def)
next
  case (Cons kv new)
  obtain key val where kv: "kv = (key, val)" by (cases kv)
  have step: "dict_update ((key, val) # new) old = dict_update new (AList.update key val old)"
    by (simp add: dict_update_def)
  show ?case
  proof (cases "k = key")
    case True
    then have "k \<notin> fst ` set new" using Cons.prems by (simp add: kv)
    then show ?thesis
      unfolding kv by (simp add: step map_of_dict_update_other update_conv' True)
  next
    case False
    have "distinct (map fst new)" using Cons.prems by simp
    from Cons.IH [OF this] False show ?thesis
      unfolding kv by (simp add: step update_conv' split: option.splits)
  qed
qed

lemma length_update_present:
  "k \<in> fst ` set al \<Longrightarrow> length (AList.update k v al) = length al"
  by (induction al) auto

lemma enforce_cap_within:
  "int (length (buf_entries b)) \<le> max_entries b \<Longrightarrow> enforce_cap b = (None, b)"
  by (subst enforce_cap.simps) simp

lemma merge_fields:
  "last_update (merge diff ver act eid (Some ts) ext e) = ts"
  "entry_version (merge diff (Some v) act eid ts' ext e) =
     Some (case entry_version e of None \<Rightarrow> v | Some cur \<Rightarrow> max cur v)"
  "entry_payload (merge diff ver act eid ts' ext e) = dict_update diff (entry_payload e)"
  "event_ids (merge diff ver act eid ts' ext e) =
     (case eid of
        None \<Rightarrow> event_ids e
      | Some i \<Rightarrow> if i \<noteq> [] then insert i (event_ids e) else event_ids e)"
  by (auto simp: merge_def Let_def max_def split: option.splits)

lemma add_existing:
  assumes "map_of (buf_entries b) key = Some e"
    and "int (length (buf_entries b)) \<le> max_entries b"
  shows "add key diff ver act eid (Some ts) ext clock b =
           (None, b\<lparr>buf_entries :=
                      AList.update key (merge diff ver act eid (Some ts) ext e) (buf_entries b),
                    buffer_depth := int (length (buf_entries b))\<rparr>)"
proof -
  have dom: "key \<in> fst ` set (buf_entries b)"
    using assms(1) by (meson domI dom_map_of_conv_image_fst [THEN equalityD1, THEN subsetD])
  let ?e = "merge diff ver act eid (Some ts) ext e"
  have len: "length (AList.update key ?e (buf_entries b)) = length (buf_entries b)"
    using dom by (rule length_update_present)
  have "enforce_cap (b\<lparr>buf_entries := AList.update key ?e (buf_entries b)\<rparr>)
          = (None, b\<lparr>buf_entries := AList.update key ?e (buf_entries b)\<rparr>)"
    by (rule enforce_cap_within) (simp add: len assms(2))
  then show ?thesis
    by (simp add: add_def Let_def assms(1) len)
qed

text \<open>
  C3 (as amended).  \<open>DebounceBuffer.add\<close> on a metric key that already has an entry, with
  an explicit timestamp and version, in a buffer that is within its cap: afterwards the
  entry's \<open>last_update\<close> is the supplied timestamp (also when that is earlier than the
  previous \<open>last_update\<close>), its version is the maximum of the previous and the supplied
  version (the supplied one when there was none), the keys of the diff are merged
  last-write-wins into the payload, and a non-empty event id is added to the entry's set
  of event ids.
\<close>

theorem debounce_add_merges:
  assumes "map_of (buf_entries b) key = Some e"
    and "int (length (buf_entries b)) \<le> max_entries b"
    and "distinct (map fst diff)"
  shows "fst (add key diff (Some ver) act eid (Some ts) ext clock b) = None \<and>
         (\<exists>e'. map_of (buf_entries (snd (add key diff (Some ver) act eid (Some ts) ext clock b))) key
                 = Some e' \<and>
               last_update e' = ts \<and>
               entry_version e' = Some (case entry_version e of None \<Rightarrow> ver | Some cur \<Rightarrow> max cur ver) \<and>
               (\<forall>k. map_of (entry_payload e') k =
                      (case map_of diff k of Some v \<Rightarrow> Some v | None \<Rightarrow> map_of (entry_payload e) k)) \<and>
               event_ids e' =
                 (case eid of
                    None \<Rightarrow> event_ids e
                  | Some i \<Rightarrow> if i \<noteq> [] then insert i (event_ids e) else event_ids e))"
proof -
  let ?e = "merge diff (Some ver) act eid (Some ts) ext e"
  note run = add_existing [OF assms(1,2), of diff "Some ver" act eid ts ext clock]
  have "fst (add key diff (Some ver) act eid (Some ts) ext clock b) = None"
    by (simp add: run)
  moreover have "map_of (buf_entries (snd (add key diff (Some ver) act eid (Some ts) ext clock b))) key
                   = Some ?e"
    by (simp add: run update_conv')
  moreover have "\<forall>k. map_of (entry_payload ?e) k =
                   (case map_of diff k of Some v \<Rightarrow> Some v | None \<Rightarrow> map_of (entry_payload e) k)"
    by (simp add: merge_fields(3) map_of_dict_update [OF assms(3)])
  moreover have "last_update ?e = ts"
    by (rule merge_fields(1))
  moreover have "entry_version ?e = Some (case entry_version e of None \<Rightarrow> ver | Some cur \<Rightarrow> max cur ver)"
    by (rule merge_fields(2))
  moreover have "event_ids ?e =
                   (case eid of
                      None \<Rightarrow> event_ids e
                    | Some i \<Rightarrow> if i \<noteq> [] then insert i (event_ids e) else event_ids e)"
    by (rule merge_fields(4))
  ultimately show ?thesis
    by (intro conjI exI [of _ ?e]) assumption+
qed

theorem debounce_add_merges_witness:
  "fst (add ''metric-1'' [(''displayHigh'', 1750), (''displayLow'', 10)] (Some 2) (Some ''cdc'')
          (Some ''evt-2'') (Some 70) None 0 one_entry_buffer) = None \<and>
   map_option last_update (map_of (buf_entries (snd
       (add ''metric-1'' [(''displayHigh'', 1750), (''displayLow'', 10)] (Some 2) (Some ''cdc'')
          (Some ''evt-2'') (Some 70) None 0 one_entry_buffer))) ''metric-1'') = Some 70 \<and>
   map_option entry_version (map_of (buf_entries (snd
       (add ''metric-1'' [(''displayHigh'', 1750), (''displayLow'', 10)] (Some 2) (Some ''cdc'')
          (Some ''evt-2'') (Some 70) None 0 one_entry_buffer))) ''metric-1'') = Some (Some 3) \<and>
   map_option event_ids (map_of (buf_entries (snd
       (add ''metric-1'' [(''displayHigh'', 1750), (''displayLow'', 10)] (Some 2) (Some ''cdc'')
          (Some ''evt-2'') (Some 70) None 0 one_entry_buffer))) ''metric-1'')
     = Some {''evt-1'', ''evt-2''}"
  using debounce_add_merges [where b = one_entry_buffer and key = "''metric-1''"
      and diff = "[(''displayHigh'', 1750), (''displayLow'', 10)]" and ver = 2
      and act = "Some ''cdc''" and eid = "Some ''evt-2''" and ts = 70 and ext = None
      and clock = 0
      and e = "\<lparr>metric_key = ''metric-1'', first_seen = 0, last_update = 10,
          entry_payload = [(''displayHigh'', 1800)], entry_version = Some 3,
          entry_actor = Some ''ingest'', event_ids = {''evt-1''}, extras = []\<rparr>"]
  by (auto simp: one_entry_buffer_def)

text \<open>
  The claim as stated (\<open>last_update = max(previous last_update, timestamp)\<close>) fails: the
  entry was last updated at 10, the add carries the timestamp 5, and afterwards
  \<open>last_update\<close> is 5, not 10.
\<close>

theorem debounce_last_update_counterexample:
  "map_option last_update (map_of (buf_entries one_entry_buffer) ''metric-1'') = Some 10 \<and>
   fst (add ''metric-1'' [] (Some 4) None None (Some 5) None 0 one_entry_buffer) = None \<and>
   map_option last_update (map_of (buf_entries (snd
       (add ''metric-1'' [] (Some 4) None None (Some 5) None 0 one_entry_buffer))) ''metric-1'')
     = Some 5 \<and>
   max (10::rat) 5 = 10"
  by (simp add: one_entry_buffer_def add_def merge_def dict_update_def enforce_cap.simps Let_def)

section \<open>Repository theorems\<close>

lemma invalid_property_type:
  "prop_type payload \<notin> set allowed \<Longrightarrow>
     property_column_values py payload
       = Inl (RepositoryError (''invalid property type: '' @ prop_type payload))"
  by (simp add: property_column_values_def)

lemma property_columns_typed:
  assumes "property_column_values py payload = Inr cols"
  shows "prop_type payload \<in> set allowed \<and>
         non_null_columns cols =
           (if prop_value payload = None then [] else [column_of_type (prop_type payload)])"
proof -
  have ty: "prop_type payload \<in> set allowed"
    using assms by (auto simp: property_column_values_def split: if_splits)
  then consider "prop_type payload = ''int''" | "prop_type payload = ''long''"
    | "prop_type payload = ''float''" | "prop_type payload = ''double''"
    | "prop_type payload = ''string''" | "prop_type payload = ''boolean''"
    by (auto simp: allowed_def)
  then have "non_null_columns cols =
           (if prop_value payload = None then [] else [column_of_type (prop_type payload)])"
  proof cases
    case 1
    with assms ty show ?thesis
      by (auto simp: property_column_values_def null_columns_def non_null_columns_def
          column_of_type_def Let_def split: option.splits)
  next
    case 2
    with assms ty show ?thesis
      by (auto simp: property_column_values_def null_columns_def non_null_columns_def
          column_of_type_def Let_def split: option.splits)
  next
    case 3
    with assms ty show ?thesis
      by (auto simp: property_column_values_def null_columns_def non_null_columns_def
          column_of_type_def Let_def split: option.splits)
  next
    case 4
    with assms ty show ?thesis
      by (auto simp: property_column_values_def null_columns_def non_null_columns_def
          column_of_type_def Let_def split: option.splits)
  next
    case 5
    with assms ty show ?thesis
      by (auto simp: property_column_values_def null_columns_def non_null_columns_def
          column_of_type_def Let_def split: option.splits)
  next
    case 6
    with assms ty show ?thesis
      by (auto simp: property_column_values_def null_columns_def non_null_columns_def
          column_of_type_def Let_def split: option.splits)
  qed
  with ty show ?thesis by simp
qed

lemma typed_row_of:
  "payload \<in> set payloads \<Longrightarrow> property_column_values py payload = Inr cols \<Longrightarrow>
     typed_row payloads (property_row_of payload cols)"
  unfolding typed_row_def using property_columns_typed by blast

lemma issued_same: "issued conn conn = []"
  by (simp add: issued_def)

lemma issued_execute:
  "execute st conn = (ok, conn1) \<Longrightarrow> executed conn1 = executed conn @ [st]"
  by (auto simp: execute_def)

lemma upsert_metric_property_issued:
  "\<forall>st \<in> set (issued conn (snd (upsert_metric_property py payload conn))).
     \<forall>row \<in> set (rows_of st). typed_row [payload] row"
proof (cases "property_column_values py payload")
  case (Inl e)
  then show ?thesis by (simp add: upsert_metric_property_def issued_same)
next
  case (Inr cols)
  have row: "typed_row [payload] (property_row_of payload cols)"
    by (rule typed_row_of [OF _ Inr]) simp
  show ?thesis
    using row
    by (auto simp: upsert_metric_property_def Inr execute_def issued_def
        split: option.splits bool.splits if_splits)
qed

lemma set_update_subset: "set (AList.update k v al) \<subseteq> insert (k, v) (set al)"
  by (induction al) auto

lemma snd_update_cases:
  assumes "y \<in> snd ` set (AList.update k v al)"
  shows "y = v \<or> y \<in> snd ` set al"
proof -
  from assms obtain x where x: "(x, y) \<in> set (AList.update k v al)" by auto
  with set_update_subset [of k v al] have "(x, y) = (k, v) \<or> (x, y) \<in> set al" by blast
  then show ?thesis by (metis snd_conv image_eqI)
qed

lemma group_payload_held:
  assumes "inner \<in> snd ` set (group_payload payload grouped)" and "q \<in> snd ` set inner"
  shows "q = payload \<or> (\<exists>d \<in> snd ` set grouped. q \<in> snd ` set d)"
proof -
  define old where "old = (case map_of grouped (prop_metric_id payload) of None \<Rightarrow> [] | Some d \<Rightarrow> d)"
  define new where "new = AList.update (prop_key payload) payload old"
  have gp: "group_payload payload grouped = AList.update (prop_metric_id payload) new grouped"
    by (simp add: group_payload_def Let_def new_def old_def)
  have old: "old = [] \<or> old \<in> snd ` set grouped"
  proof (cases "map_of grouped (prop_metric_id payload)")
    case None
    then show ?thesis by (simp add: old_def)
  next
    case (Some d)
    then have "(prop_metric_id payload, d) \<in> set grouped" by (rule map_of_SomeD)
    then have "d \<in> snd ` set grouped" by (metis snd_conv image_eqI)
    then show ?thesis by (simp add: old_def Some)
  qed
  from assms(1) have "inner = new \<or> inner \<in> snd ` set grouped"
    unfolding gp by (rule snd_update_cases)
  then show ?thesis
  proof
    assume "inner = new"
    with assms(2) have "q = payload \<or> q \<in> snd ` set old"
      unfolding new_def by (metis snd_update_cases)
    then show ?thesis
    proof
      assume "q = payload"
      then show ?thesis ..
    next
      assume q: "q \<in> snd ` set old"
      then have "old \<noteq> []" by auto
      with old have "old \<in> snd ` set grouped" by simp
      with q show ?thesis by blast
    qed
  next
    assume "inner \<in> snd ` set grouped"
    with assms(2) show ?thesis by blast
  qed
qed

lemma fold_group_payload_held:
  assumes "inner \<in> snd ` set (fold group_payload items grouped)" and "q \<in> snd ` set inner"
  shows "q \<in> set items \<or> (\<exists>d \<in> snd ` set grouped. q \<in> snd ` set d)"
  using assms
proof (induction items arbitrary: grouped)
  case Nil
  then show ?case by auto
next
  case (Cons payload items)
  from Cons.prems have "inner \<in> snd ` set (fold group_payload items (group_payload payload grouped))"
    by simp
  from Cons.IH [OF this Cons.prems(2)]
  have "q \<in> set items \<or> (\<exists>d \<in> snd ` set (group_payload payload grouped). q \<in> snd ` set d)" .
  then show ?case
  proof
    assume "q \<in> set items"
    then show ?thesis by simp
  next
    assume "\<exists>d \<in> snd ` set (group_payload payload grouped). q \<in> snd ` set d"
    then obtain d where "d \<in> snd ` set (group_payload payload grouped)" "q \<in> snd ` set d"
      by blast
    from group_payload_held [OF this] show ?thesis by auto
  qed
qed

lemma grouped_payloads_subset: "set (grouped_payloads items) \<subseteq> set items"
proof
  fix q
  assume "q \<in> set (grouped_payloads items)"
  then obtain mid inner where mi: "(mid, inner) \<in> set (fold group_payload items [])"
    and q: "q \<in> snd ` set inner"
    by (auto simp: grouped_payloads_def)
  from mi have "inner \<in> snd ` set (fold group_payload items [])"
    by (metis snd_conv image_eqI)
  from fold_group_payload_held [OF this q] show "q \<in> set items" by simp
qed

lemma typed_row_mono: "set ps \<subseteq> set qs \<Longrightarrow> typed_row ps row \<Longrightarrow> typed_row qs row"
  unfolding typed_row_def by blast

lemma property_rows_typed:
  "property_rows py ps = Inr rows \<Longrightarrow> \<forall>row \<in> set rows. typed_row ps row"
proof (induction ps arbitrary: rows)
  case Nil
  then show ?case by simp
next
  case (Cons payload ps)
  from Cons.prems obtain cols rest where cols: "property_column_values py payload = Inr cols"
    and rest: "property_rows py ps = Inr rest"
    and rows: "rows = property_row_of payload cols # rest"
    by (auto split: sum.splits)
  have first: "typed_row (payload # ps) (property_row_of payload cols)"
    by (rule typed_row_of [OF _ cols]) simp
  have mono: "typed_row ps row \<Longrightarrow> typed_row (payload # ps) row" for row
    by (rule typed_row_mono [of ps]) auto
  have "\<forall>row \<in> set rest. typed_row (payload # ps) row"
    using Cons.IH [OF rest] mono by blast
  with first show ?case by (simp add: rows)
qed

lemma property_rows_error:
  "payload \<in> set ps \<Longrightarrow> prop_type payload \<notin> set allowed \<Longrightarrow> \<exists>e. property_rows py ps = Inl e"
proof (induction ps)
  case Nil
  then show ?case by simp
next
  case (Cons q ps)
  show ?case
  proof (cases "payload = q")
    case True
    then show ?thesis
      using Cons.prems(2) by (simp add: invalid_property_type)
  next
    case False
    then have "\<exists>e. property_rows py ps = Inl e"
      using Cons by simp
    then show ?thesis by (auto split: sum.splits)
  qed
qed

lemma batched_rows: "set (concat (batched n rows)) \<subseteq> set rows"
proof (induction n rows rule: batched.induct)
  case (1 n items)
  show ?case
  proof (cases "n = 0 \<or> items = []")
    case True
    then show ?thesis by (subst batched.simps) simp
  next
    case False
    have "set (take n items) \<subseteq> set items" by (rule set_take_subset)
    moreover have "set (concat (batched n (drop n items))) \<subseteq> set items"
      using "1.IH" [OF False] set_drop_subset [of n items] by blast
    ultimately show ?thesis
      using False by (subst batched.simps) simp
  qed
qed

lemma insert_property_batches_issued:
  "\<exists>k. executed (snd (insert_property_batches batches total_rows conn))
         = executed conn @ map InsertProperties (take k batches)"
proof (induction batches arbitrary: total_rows conn)
  case Nil
  show ?case by simp
next
  case (Cons batch batches)
  let ?conn1 = "conn\<lparr>executed := executed conn @ [InsertProperties batch]\<rparr>"
  show ?case
  proof (cases "accepts conn (InsertProperties batch)")
    case False
    then have "executed (snd (insert_property_batches (batch # batches) total_rows conn))
                 = executed conn @ map InsertProperties (take 1 (batch # batches))"
      by (simp add: execute_def)
    then show ?thesis by blast
  next
    case True
    obtain k where "executed (snd (insert_property_batches batches
                      (total_rows + rowcount ?conn1 (InsertProperties batch)) ?conn1))
                      = executed ?conn1 @ map InsertProperties (take k batches)"
      using Cons.IH by blast
    then have "executed (snd (insert_property_batches (batch # batches) total_rows conn))
                 = executed conn @ map InsertProperties (take (Suc k) (batch # batches))"
      using True by (simp add: execute_def)
    then show ?thesis by blast
  qed
qed

lemma upsert_metric_properties_bulk_issued:
  "\<forall>st \<in> set (issued conn (snd (upsert_metric_properties_bulk py payloads batch_size conn))).
     \<forall>row \<in> set (rows_of st). typed_row payloads row"
proof (cases "property_rows py (grouped_payloads payloads)")
  case (Inl e)
  then show ?thesis by (simp add: upsert_metric_properties_bulk_def issued_same)
next
  case (Inr rows)
  have typed: "\<forall>row \<in> set rows. typed_row payloads row"
    using property_rows_typed [OF Inr] typed_row_mono [OF grouped_payloads_subset] by blast
  show ?thesis
  proof (cases "batch_size \<le> 0 \<or> payloads = [] \<or> rows = []")
    case True
    then show ?thesis
      by (auto simp: upsert_metric_properties_bulk_def issued_same Inr)
  next
    case False
    let ?batches = "batched (nat batch_size) rows"
    obtain k where k: "executed (snd (insert_property_batches ?batches 0 conn))
                         = executed conn @ map InsertProperties (take k ?batches)"
      using insert_property_batches_issued by blast
    have run: "upsert_metric_properties_bulk py payloads batch_size conn
                 = insert_property_batches ?batches 0 conn"
      using False by (simp add: upsert_metric_properties_bulk_def Inr)
    have "issued conn (snd (upsert_metric_properties_bulk py payloads batch_size conn))
            = map InsertProperties (take k ?batches)"
      by (simp add: run issued_def k)
    moreover have "\<forall>batch \<in> set (take k ?batches). set batch \<subseteq> set rows"
      using batched_rows [of "nat batch_size" rows] set_take_subset [of k ?batches] by auto
    ultimately show ?thesis
      using typed by auto
  qed
qed

lemma grouped_payloads_single: "grouped_payloads [payload] = [payload]"
  by (simp add: grouped_payloads_def group_payload_def)

text \<open>
  C4 (as amended).  A payload whose type is not one of int, long, float, double, string,
  boolean makes \<open>upsert_metric_property\<close> fail with the invalid-property-type
  \<open>RepositoryError\<close> before any statement is executed, and the bulk variant fail without
  executing anything when such a payload survives the deduplication.  Every property row
  that either call hands to the database renders one of the payloads: its type is an
  allowed one, every value column other than the one of that type is NULL, and the column
  of the type is non-null exactly when the payload's value is not \<open>None\<close>.
\<close>

theorem property_typing:
  "(prop_type payload \<notin> set allowed \<longrightarrow>
      upsert_metric_property py payload conn
        = (Inl (RepositoryError (''invalid property type: '' @ prop_type payload)), conn) \<and>
      (0 < batch_size \<longrightarrow>
         upsert_metric_properties_bulk py [payload] batch_size conn
           = (Inl (RepositoryError (''invalid property type: '' @ prop_type payload)), conn)) \<and>
      (0 < batch_size \<and> payload \<in> set (grouped_payloads payloads) \<longrightarrow>
         (\<exists>e. upsert_metric_properties_bulk py payloads batch_size conn = (Inl e, conn)))) \<and>
   (\<forall>st \<in> set (issued conn (snd (upsert_metric_property py payload conn))).
      \<forall>row \<in> set (rows_of st). typed_row [payload] row) \<and>
   (\<forall>st \<in> set (issued conn (snd (upsert_metric_properties_bulk py payloads batch_size conn))).
      \<forall>row \<in> set (rows_of st). typed_row payloads row)"
proof -
  {
    assume bad: "prop_type payload \<notin> set allowed"
    have single: "upsert_metric_property py payload conn
        = (Inl (RepositoryError (''invalid property type: '' @ prop_type payload)), conn)"
      by (simp add: upsert_metric_property_def invalid_property_type [OF bad])
    have bulk1: "upsert_metric_properties_bulk py [payload] batch_size conn
           = (Inl (RepositoryError (''invalid property type: '' @ prop_type payload)), conn)"
      if "0 < batch_size"
      using that
      by (simp add: upsert_metric_properties_bulk_def grouped_payloads_single
          invalid_property_type [OF bad])
    have bulk: "\<exists>e. upsert_metric_properties_bulk py payloads batch_size conn = (Inl e, conn)"
      if "0 < batch_size" and mem: "payload \<in> set (grouped_payloads payloads)"
    proof -
      obtain e where e: "property_rows py (grouped_payloads payloads) = Inl e"
        using property_rows_error [OF mem bad] by blast
      have "payloads \<noteq> []"
        using mem by (auto simp: grouped_payloads_def)
      then show ?thesis
        using that(1) by (simp add: upsert_metric_properties_bulk_def e)
    qed
    note single bulk1 bulk
  }
  then show ?thesis
    using upsert_metric_property_issued [of conn py payload]
      upsert_metric_properties_bulk_issued [of conn py payloads batch_size]
    by blast
qed

theorem property_typing_witness:
  "upsert_metric_property int_builtins bad_type_property empty_db
     = (Inl (RepositoryError ''invalid property type: uint32''), empty_db) \<and>
   upsert_metric_properties_bulk int_builtins [bad_type_property] 10 empty_db
     = (Inl (RepositoryError ''invalid property type: uint32''), empty_db) \<and>
   issued empty_db (snd (upsert_metric_property int_builtins int_property empty_db))
     = [SelectProperty 1 ''precision'',
        InsertProperty (1, ''precision'', ''int'', null_columns\<lparr>value_int := Some 4\<rparr>)] \<and>
   typed_row [int_property] (1, ''precision'', ''int'', null_columns\<lparr>value_int := Some 4\<rparr>)"
proof -
  have run: "issued empty_db (snd (upsert_metric_property int_builtins int_property empty_db))
     = [SelectProperty 1 ''precision'',
        InsertProperty (1, ''precision'', ''int'', null_columns\<lparr>value_int := Some 4\<rparr>)]"
    by (simp add: issued_def upsert_metric_property_def property_column_values_def allowed_def
        int_property_def int_builtins_def empty_db_def execute_def accept_all_def
        no_property_def property_row_of_def Let_def)
  have bad: "prop_type bad_type_property \<notin> set allowed"
    by (simp add: bad_type_property_def allowed_def)
  show ?thesis
    using property_typing [where payload = bad_type_property and py = int_builtins
        and conn = empty_db and batch_size = 10 and payloads = "[bad_type_property]"]
      property_typing [where payload = int_property and py = int_builtins
        and conn = empty_db and batch_size = 10 and payloads = "[int_property]"]
      bad
    by (simp add: run) (simp add: bad_type_property_def)
qed

text \<open>
  The claim as stated (exactly one value column is non-null) fails for a payload of an
  allowed type whose value is \<open>None\<close>: both calls hand the database a row whose value
  columns are all NULL.
\<close>

theorem property_typing_counterexample:
  "prop_type null_int_property \<in> set allowed \<and>
   issued empty_db (snd (upsert_metric_property int_builtins null_int_property empty_db))
     = [SelectProperty 1 ''precision'',
        InsertProperty (1, ''precision'', ''int'', null_columns)] \<and>
   issued empty_db (snd (upsert_metric_properties_bulk int_builtins [null_int_property] 10000 empty_db))
     = [InsertProperties [(1, ''precision'', ''int'', null_columns)]] \<and>
   non_null_columns null_columns = []"
  by (simp add: issued_def upsert_metric_property_def upsert_metric_properties_bulk_def
      property_column_values_def allowed_def null_int_property_def int_builtins_def
      empty_db_def execute_def accept_all_def no_property_def property_row_of_def Let_def
      grouped_payloads_def group_payload_def batched.simps non_null_columns_def
      null_columns_def)

text \<open>
  C5.  \<open>upsert_metrics_bulk\<close> does not deduplicate: for two payloads with the same
  \<open>(device_id, name)\<close> the single INSERT of the batch carries both rows, where
  \<open>upsert_metric_properties_bulk\<close>, given two payloads with the same
  \<open>(metric_id, key)\<close>, sends only the later one.
\<close>

theorem metrics_bulk_keeps_duplicates:
  "device_id metric_first = device_id metric_again \<and>
   metric_payload_name metric_first = metric_payload_name metric_again \<and>
   executed (snd (upsert_metrics_bulk [metric_first, metric_again] 1000 empty_db))
     = [InsertMetrics [(1, ''temperature'', ''G/E/D/temperature'', ''double''),
                       (1, ''temperature'', ''G/E/D/temperature'', ''float'')],
        SelectMetricIds 1 [''temperature'', ''temperature'']] \<and>
   prop_metric_id int_property = prop_metric_id null_int_property \<and>
   prop_key int_property = prop_key null_int_property \<and>
   executed (snd (upsert_metric_properties_bulk int_builtins
       [int_property, null_int_property] 10000 empty_db))
     = [InsertProperties [(1, ''precision'', ''int'', null_columns)]]"
  by (simp add: upsert_metrics_bulk_def upsert_metric_properties_bulk_def metric_first_def
      metric_again_def metric_row_of_def batched.simps execute_def empty_db_def accept_all_def
      no_ids_def Let_def property_column_values_def allowed_def null_int_property_def
      int_property_def int_builtins_def property_row_of_def grouped_payloads_def
      group_payload_def one_row_def null_columns_def)

section \<open>Retry policy theorems\<close>

lemma build_limits_length: "length (build_limits k d mx) = k"
  by (induction k arbitrary: d) simp_all

lemma build_limits_nth:
  "0 < mx \<Longrightarrow> 0 < d \<Longrightarrow> n < k \<Longrightarrow> build_limits k d mx ! n = min (d * 2 ^ n) mx"
proof (induction k arbitrary: d n)
  case 0
  then show ?case by simp
next
  case (Suc k)
  show ?case
  proof (cases n)
    case 0
    then show ?thesis by simp
  next
    case (Suc m)
    have m: "m < k" using Suc.prems(3) Suc by simp
    have pos: "0 < min (d * 2) mx" using Suc.prems(1,2) by simp
    have "build_limits (Suc k) d mx ! n = min (min (d * 2) mx * 2 ^ m) mx"
      using Suc.IH [OF Suc.prems(1) pos m] Suc by simp
    also have "\<dots> = min (d * 2 ^ n) mx"
    proof (cases "d * 2 \<le> mx")
      case True
      then show ?thesis by (simp add: Suc min_def mult.assoc)
    next
      case False
      have one: "(1::rat) \<le> 2 ^ m" by simp
      have a: "mx \<le> mx * 2 ^ m"
        using Suc.prems(1) one by (simp add: mult_le_cancel_left1)
      have "d * 2 \<le> d * 2 * 2 ^ m"
        using Suc.prems(2) one by (simp add: mult_le_cancel_left1)
      then have b: "mx \<le> d * 2 ^ n"
        using False by (simp add: Suc mult.assoc)
      from False a b show ?thesis by (simp add: min_def)
    qed
    finally show ?thesis .
  qed
qed

lemma retry_step_fields:
  "retry_policy (retry_step now a c) = retry_policy c"
  "session_manager (retry_step now a c) = session_manager c"
  "sender_calls (retry_step now a c) = sender_calls c + 1"
  "sleeps (retry_step now a c) =
     sleeps c @ filter (\<lambda>d. 0 < d) [next_delay (retry_policy c) (a + 1)]"
  by (simp_all add: retry_step_def wait_def)

lemma dispatch_loop_retry:
  assumes "sender a = Some e"
    and "is_retriable e \<or> handle_session_error (session_manager c) e"
    and "a < max_attempts (retry_policy c)"
  shows "dispatch_loop sender clock n a c
           = dispatch_loop sender clock n (a + 1) (retry_step (clock a) a c)"
  using assms by (subst dispatch_loop.simps) (auto simp: Let_def retry_step_def)

lemma dispatch_loop_exhausted:
  assumes "sender a = Some e" and "max_attempts (retry_policy c) \<le> a"
  shows "sender_calls (dispatch_loop sender clock n a c) = sender_calls c + 1 \<and>
         sleeps (dispatch_loop sender clock n a c) = sleeps c"
  using assms by (subst (1 2) dispatch_loop.simps) (simp add: Let_def emit_dead_letter_def)

lemma dispatch_loop_failing:
  assumes fail: "\<And>k. \<exists>e. sender k = Some e \<and>
                   (is_retriable e \<or> handle_session_error (session_manager c) e)"
    and "max_attempts (retry_policy c) = int r + 1" and "1 \<le> a" and "a \<le> r + 1"
  shows "sender_calls (dispatch_loop sender clock n (int a) c) = sender_calls c + (r + 2 - a) \<and>
         sleeps (dispatch_loop sender clock n (int a) c)
           = sleeps c @ filter (\<lambda>d. 0 < d)
               (map (\<lambda>k. next_delay (retry_policy c) (int k + 1)) [a..<r + 1])"
  using assms
proof (induction "r + 1 - a" arbitrary: a c)
  case 0
  then have a: "a = r + 1" by simp
  obtain e where e: "sender (int a) = Some e" using "0.prems"(1) by blast
  have "max_attempts (retry_policy c) \<le> int a" using "0.prems"(2) a by simp
  from dispatch_loop_exhausted [where sender = sender and a = "int a" and c = c
      and clock = clock and n = n, OF e this]
  show ?case by (simp add: a)
next
  case (Suc m)
  then have lt: "a < r + 1" by simp
  obtain e where e: "sender (int a) = Some e"
    and re: "is_retriable e \<or> handle_session_error (session_manager c) e"
    using Suc.prems(1) by blast
  let ?c = "retry_step (clock (int a)) (int a) c"
  have step: "dispatch_loop sender clock n (int a) c
                = dispatch_loop sender clock n (int (Suc a)) ?c"
    using dispatch_loop_retry [where sender = sender and a = "int a" and c = c
        and clock = clock and n = n, OF e re] Suc.prems(2) lt
    by (simp add: add.commute)
  have m: "m = r + 1 - Suc a" using Suc.hyps(2) by simp
  define xs where "xs = [Suc a..<r + 1]"
  define f where "f = (\<lambda>k. next_delay (retry_policy c) (int k + 1))"
  have up: "[a..<r + 1] = a # xs"
    unfolding xs_def using lt by (simp only: upt_conv_Cons)
  have pol: "retry_policy ?c = retry_policy c" by (simp add: retry_step_fields)
  have ih: "sender_calls (dispatch_loop sender clock n (int (Suc a)) ?c)
              = sender_calls ?c + (r + 2 - Suc a) \<and>
            sleeps (dispatch_loop sender clock n (int (Suc a)) ?c)
              = sleeps ?c @ filter (\<lambda>d. 0 < d) (map f xs)"
    unfolding xs_def f_def pol [symmetric]
  proof (rule Suc.hyps(1) [OF m])
    show "\<exists>e. sender k = Some e \<and>
            (is_retriable e \<or> handle_session_error (session_manager ?c) e)" for k
      using Suc.prems(1) by (simp add: retry_step_fields)
    show "max_attempts (retry_policy ?c) = int r + 1"
      using Suc.prems(2) by (simp add: retry_step_fields)
    show "1 \<le> Suc a" by simp
    show "Suc a \<le> r + 1" using lt by simp
  qed
  have calls: "sender_calls ?c + (r + 2 - Suc a) = sender_calls c + (r + 2 - a)"
    using lt by (simp add: retry_step_fields)
  have sl: "sleeps ?c @ filter (\<lambda>d. 0 < d) (map f xs)
              = sleeps c @ filter (\<lambda>d. 0 < d) (map f (a # xs))"
    by (simp add: retry_step_fields f_def)
  show ?case
    unfolding step up f_def [symmetric] using ih calls sl by simp
qed

lemma next_delay_limit:
  assumes "1 \<le> k" and "k \<le> length (limits p)"
  shows "next_delay p (int k + 1) = max 0 (jitter_fn p (limits p ! (k - 1)))"
proof -
  have "min (int k + 1 - 2) (int (length (limits p)) - 1) = int (k - 1)"
    using assms by simp
  then show ?thesis
    using assms by (simp add: next_delay_def Let_def del: of_nat_diff)
qed


lemma filter_positive_clamped:
  "filter (\<lambda>d. 0 < d) (map (\<lambda>k. max 0 (g k)) ks) = filter (\<lambda>d. (0::rat) < d) (map g ks)"
  by (induction ks) (auto simp: max_def)

lemma RetryPolicy_init_Inr:
  assumes "RetryPolicy_init attempts base_delay max_delay jitter = Inr p"
  shows "0 \<le> attempts" "0 < base_delay" "0 < max_delay"
    "retries p = attempts" "jitter_fn p = jitter"
    "limits p = build_limits (nat attempts) base_delay max_delay"
  using assms by (auto simp: RetryPolicy_init_def split: if_splits)

text \<open>
  C6 (as amended).  A dispatched batch whose sender fails with a retriable error at every
  attempt is sent exactly \<open>1 + retry_attempts\<close> times.  Before the \<open>n\<close>-th retry the
  client sleeps for the jitter function applied to the limit
  \<open>min(base_delay * 2^(n-1), max_delay)\<close> when that value is positive, and does not sleep
  at all when it is zero or negative.
\<close>

theorem retry_policy_dispatch:
  assumes "RetryPolicy_init attempts base_delay max_delay jitter = Inr p"
    and "retry_policy c = p"
    and "\<forall>attempt. \<exists>exc. sender attempt = Some exc \<and>
           (is_retriable exc \<or> handle_session_error (session_manager c) exc)"
  shows "sender_calls (dispatch sender clock batch_len c) = sender_calls c + nat (1 + attempts) \<and>
         sleeps (dispatch sender clock batch_len c)
           = sleeps c @ filter (\<lambda>d. 0 < d)
               (map (\<lambda>n. jitter (retry_limit base_delay max_delay n)) [1..<nat attempts + 1])"
proof -
  note init = RetryPolicy_init_Inr [OF assms(1)]
  define r where "r = nat attempts"
  define c0 where "c0 = c\<lparr>requests_total := requests_total c + 1\<rparr>"
  have pol: "retry_policy c0 = p" and sm: "session_manager c0 = session_manager c"
    and sc: "sender_calls c0 = sender_calls c" and sl: "sleeps c0 = sleeps c"
    by (simp_all add: c0_def assms(2))
  have ma: "max_attempts (retry_policy c0) = int r + 1"
    using init(1,4) by (simp add: pol max_attempts_def r_def)
  have fail: "\<exists>e. sender k = Some e \<and>
                (is_retriable e \<or> handle_session_error (session_manager c0) e)" for k
    using assms(3) by (simp add: sm)
  have loop: "sender_calls (dispatch_loop sender clock batch_len (int 1) c0)
                = sender_calls c0 + (r + 2 - 1) \<and>
              sleeps (dispatch_loop sender clock batch_len (int 1) c0)
                = sleeps c0 @ filter (\<lambda>d. 0 < d)
                    (map (\<lambda>k. next_delay (retry_policy c0) (int k + 1)) [1..<r + 1])"
    by (rule dispatch_loop_failing [OF fail ma]) simp_all
  have len: "length (limits p) = r"
    by (simp add: init(6) build_limits_length r_def)
  have delay: "next_delay p (int k + 1) = max 0 (jitter (retry_limit base_delay max_delay k))"
    if "k \<in> set [1..<r + 1]" for k
  proof -
    have k: "1 \<le> k" "k \<le> length (limits p)" "k - 1 < r"
      using that by (auto simp: len)
    have "limits p ! (k - 1) = min (base_delay * 2 ^ (k - 1)) max_delay"
      using build_limits_nth [OF init(3) init(2) k(3)] by (simp add: init(6) r_def)
    then show ?thesis
      using next_delay_limit [OF k(1,2)] by (simp add: init(5) retry_limit_def)
  qed
  have "map (\<lambda>k. next_delay (retry_policy c0) (int k + 1)) [1..<r + 1]
          = map (\<lambda>k. max 0 (jitter (retry_limit base_delay max_delay k))) [1..<r + 1]"
    unfolding pol by (rule map_cong [OF refl]) (rule delay)
  then have sleeps_eq: "filter (\<lambda>d. 0 < d)
                 (map (\<lambda>k. next_delay (retry_policy c0) (int k + 1)) [1..<r + 1])
          = filter (\<lambda>d. 0 < d)
                 (map (\<lambda>k. jitter (retry_limit base_delay max_delay k)) [1..<r + 1])"
    by (simp only: filter_positive_clamped)
  have n: "nat (1 + attempts) = r + 2 - 1"
    using init(1) by (simp add: r_def nat_add_distrib)
  show ?thesis
    unfolding dispatch_def c0_def [symmetric] r_def [symmetric] n
    using loop sleeps_eq by (simp add: sc sl)
qed

theorem retry_policy_dispatch_witness:
  "RetryPolicy_init 2 (1/5) (4/5) cap_jitter
     = Inr \<lparr>retries = 2, jitter_fn = cap_jitter, limits = [1/5, 2/5]\<rparr> \<and>
   sender_calls (dispatch failing_sender zero_clock 1
     (new_client \<lparr>retries = 2, jitter_fn = cap_jitter, limits = [1/5, 2/5]\<rparr> fresh_breaker)) = 3 \<and>
   sleeps (dispatch failing_sender zero_clock 1
     (new_client \<lparr>retries = 2, jitter_fn = cap_jitter, limits = [1/5, 2/5]\<rparr> fresh_breaker))
     = [1/5, 2/5]"
proof -
  have init: "RetryPolicy_init 2 (1/5) (4/5) cap_jitter
     = Inr \<lparr>retries = 2, jitter_fn = cap_jitter, limits = [1/5, 2/5]\<rparr>"
    by (simp add: RetryPolicy_init_def numeral_2_eq_2)
  have pol: "retry_policy (new_client \<lparr>retries = 2, jitter_fn = cap_jitter, limits = [1/5, 2/5]\<rparr>
      fresh_breaker) = \<lparr>retries = 2, jitter_fn = cap_jitter, limits = [1/5, 2/5]\<rparr>"
    by (simp add: new_client_def)
  have fail: "\<forall>attempt. \<exists>exc. failing_sender attempt = Some exc \<and>
      (is_retriable exc \<or> handle_session_error (session_manager
        (new_client \<lparr>retries = 2, jitter_fn = cap_jitter, limits = [1/5, 2/5]\<rparr> fresh_breaker)) exc)"
    by (simp add: failing_sender_def is_retriable_def)
  have up: "[1..<nat 2 + 1] = [1, 2]"
    by (simp add: upt_conv_Cons)
  show ?thesis
    using retry_policy_dispatch [OF init pol fail, of zero_clock 1] init
    by (simp add: new_client_def retry_limit_def cap_jitter_def upt_rec)
qed

text \<open>
  The claim as stated (the sleep is the jitter of the limit, whatever the jitter returns)
  fails for a jitter that returns \<open>-1\<close>: the batch is still sent three times, but the
  sleep function is never called, where the claim has two sleeps of \<open>-1\<close>.
\<close>

theorem retry_policy_counterexample:
  "RetryPolicy_init 2 (1/5) (4/5) negative_jitter
     = Inr \<lparr>retries = 2, jitter_fn = negative_jitter, limits = [1/5, 2/5]\<rparr> \<and>
   sender_calls (dispatch failing_sender zero_clock 1
     (new_client \<lparr>retries = 2, jitter_fn = negative_jitter, limits = [1/5, 2/5]\<rparr> fresh_breaker)) = 3 \<and>
   sleeps (dispatch failing_sender zero_clock 1
     (new_client \<lparr>retries = 2, jitter_fn = negative_jitter, limits = [1/5, 2/5]\<rparr> fresh_breaker))
     = [] \<and>
   [negative_jitter (retry_limit (1/5) (4/5) 1), negative_jitter (retry_limit (1/5) (4/5) 2)]
     = [- 1, - 1]"
  by (simp add: RetryPolicy_init_def numeral_2_eq_2 dispatch_def dispatch_loop.simps
      failing_sender_def zero_clock_def new_client_def max_attempts_def next_delay_def
      is_retriable_def handle_session_error_def wait_def emit_dead_letter_def Let_def
      negative_jitter_def fresh_breaker_def record_failure_def)

section \<open>Circuit breaker theorems\<close>

lemma pow2_pos: "0 < pow2 e"
  by (simp add: pow2_def)

lemma normalize_significand_lower:
  "0 < q \<Longrightarrow> 2 ^ 52 \<le> fst (normalize_significand q e)"
proof (induction q e rule: normalize_significand.induct)
  case (1 q e)
  show ?case
  proof (cases "2 ^ 53 \<le> q")
    case True
    have "0 < q / 2" using "1.prems" by simp
    with True "1.prems" "1.IH"(1) show ?thesis
      by (subst normalize_significand.simps) simp
  next
    case False
    show ?thesis
    proof (cases "q < 2 ^ 52")
      case True
      have "0 < q * 2" using "1.prems" by simp
      with True False "1.prems" "1.IH"(2) show ?thesis
        by (subst normalize_significand.simps) simp
    next
      case nsmall: False
      with False "1.prems" show ?thesis
        by (subst normalize_significand.simps) simp
    qed
  qed
qed

lemma round_half_even_lower: "\<lfloor>q\<rfloor> \<le> round_half_even q"
  by (simp add: round_half_even_def Let_def)

lemma rounded_significand_pos:
  assumes "0 < x" and "normalize_significand x 0 = (q, e)"
  shows "0 < of_int (round_half_even q) * pow2 e"
proof -
  have "2 ^ 52 \<le> q"
    using normalize_significand_lower [OF assms(1), of 0] by (simp add: assms(2))
  then have "(1::rat) \<le> q" by simp
  then have "1 \<le> \<lfloor>q\<rfloor>" by (simp add: le_floor_iff)
  with round_half_even_lower [of q] have "0 < round_half_even q" by linarith
  then have "(0::rat) < of_int (round_half_even q)" by simp
  then show ?thesis using pow2_pos [of e] by (simp add: zero_less_mult_iff)
qed

lemma round_double_pos: "0 < round_double x \<longleftrightarrow> 0 < x"
proof -
  consider "x = 0" | "x < 0" | "0 < x" by linarith
  then show ?thesis
  proof cases
    case 1
    then show ?thesis by (simp add: round_double_def)
  next
    case 2
    obtain q e where qe: "normalize_significand (- x) 0 = (q, e)"
      by (cases "normalize_significand (- x) 0")
    have "0 < - x" using 2 by simp
    from rounded_significand_pos [OF this qe]
    have "0 < of_int (round_half_even q) * pow2 e" .
    with 2 show ?thesis by (simp add: round_double_def qe)
  next
    case 3
    obtain q e where qe: "normalize_significand x 0 = (q, e)"
      by (cases "normalize_significand x 0")
    from rounded_significand_pos [OF 3 qe]
    have "0 < of_int (round_half_even q) * pow2 e" .
    with 3 show ?thesis by (simp add: round_double_def qe)
  qed
qed

lemma normalize_significand_done:
  "2 ^ 52 \<le> q \<Longrightarrow> q < 2 ^ 53 \<Longrightarrow> normalize_significand q e = (q, e)"
  by (subst normalize_significand.simps) simp

lemma normalize_significand_scale:
  "0 < q \<Longrightarrow> q * 2 ^ n < 2 ^ 53 \<Longrightarrow>
     normalize_significand q e = normalize_significand (q * 2 ^ n) (e - int n)"
proof (induction n arbitrary: q e)
  case 0
  show ?case by simp
next
  case (Suc n)
  have one: "(1::rat) \<le> 2 ^ n" by simp
  have "q * 2 \<le> q * 2 * 2 ^ n"
    using Suc.prems(1) one by (simp add: mult_le_cancel_left1)
  also have "\<dots> < 2 ^ 53" using Suc.prems(2) by (simp add: mult.assoc)
  finally have small: "q < 2 ^ 52" by simp
  have next_small: "q * 2 * 2 ^ n < 2 ^ 53" using Suc.prems(2) by (simp add: mult.assoc)
  have pos: "0 < q * 2" using Suc.prems(1) by simp
  have "normalize_significand q e = normalize_significand (q * 2) (e - 1)"
    using Suc.prems(1) small by (subst normalize_significand.simps) simp
  also have "\<dots> = normalize_significand (q * 2 * 2 ^ n) (e - 1 - int n)"
    by (rule Suc.IH [OF pos next_small])
  also have "q * 2 * 2 ^ n = q * 2 ^ Suc n" by simp
  also have "e - 1 - int n = e - int (Suc n)" by simp
  finally show ?case .
qed

lemma round_double_scaled:
  assumes "0 < x" and "2 ^ 52 \<le> x * 2 ^ n" and "x * 2 ^ n < 2 ^ 53"
  shows "round_double x = of_int (round_half_even (x * 2 ^ n)) / 2 ^ n"
proof -
  have "normalize_significand x 0 = normalize_significand (x * 2 ^ n) (0 - int n)"
    by (rule normalize_significand_scale [OF assms(1,3)])
  also have "\<dots> = (x * 2 ^ n, - int n)"
    using normalize_significand_done [OF assms(2,3)] by simp
  finally have "normalize_significand \<bar>x\<bar> 0 = (x * 2 ^ n, - int n)"
    using assms(1) by simp
  moreover have "pow2 (- int n) = 1 / 2 ^ n"
    by (simp add: pow2_def)
  ultimately show ?thesis
    using assms(1) by (simp add: round_double_def)
qed

lemma round_half_even_integer: "round_half_even (of_int k) = k"
  by (simp add: round_half_even_def Let_def)

lemma round_half_even_fraction:
  assumes "0 < l"
  shows "round_half_even (of_int k / of_int l) =
           (if 2 * (k mod l) < l then k div l
            else if l < 2 * (k mod l) then k div l + 1
            else if even (k div l) then k div l else k div l + 1)"
proof -
  have fl: "\<lfloor>(of_int k :: rat) / of_int l\<rfloor> = k div l"
    by (rule floor_divide_of_int_eq)
  have "(of_int k :: rat) = of_int l * of_int (k div l) + of_int (k mod l)"
    by (metis mult_div_mod_eq of_int_add of_int_mult)
  then have r: "(of_int k :: rat) / of_int l - of_int (k div l) = of_int (k mod l) / of_int l"
    using assms by (simp add: field_simps)
  have lt: "(of_int (k mod l) :: rat) / of_int l < 1 / 2 \<longleftrightarrow> 2 * (k mod l) < l"
  proof -
    have "(of_int (k mod l) :: rat) / of_int l < 1 / 2
            \<longleftrightarrow> (of_int (2 * (k mod l)) :: rat) < of_int l"
      using assms by (simp add: field_simps)
    then show ?thesis by (simp only: of_int_less_iff)
  qed
  have gt: "1 / 2 < (of_int (k mod l) :: rat) / of_int l \<longleftrightarrow> l < 2 * (k mod l)"
  proof -
    have "1 / 2 < (of_int (k mod l) :: rat) / of_int l
            \<longleftrightarrow> (of_int l :: rat) < of_int (2 * (k mod l))"
      using assms by (simp add: field_simps)
    then show ?thesis by (simp only: of_int_less_iff)
  qed
  show ?thesis
    unfolding round_half_even_def Let_def fl r lt gt ..
qed

lemma float_sub_pos: "0 < float_sub a b \<longleftrightarrow> b < a"
  by (simp add: float_sub_def round_double_pos)

lemma time_until_allow_pos:
  "state b = OPEN \<Longrightarrow>
     0 < time_until_allow now b \<longleftrightarrow> float_sub now (opened_at b) < reset_timeout b"
  by (simp add: time_until_allow_def Let_def less_max_iff_disj float_sub_pos)

lemma record_failure_fields:
  "threshold (record_failure t b) = threshold b"
  "reset_timeout (record_failure t b) = reset_timeout b"
  "failures (record_failure t b) = failures b + 1"
  by (simp_all add: record_failure_def Let_def)

lemma record_failure_state:
  "state b \<noteq> HALF_OPEN \<Longrightarrow> state (record_failure t b) \<noteq> HALF_OPEN"
  "threshold b \<le> failures b + 1 \<Longrightarrow>
     state (record_failure t b) = OPEN \<and> opened_at (record_failure t b) = t"
  by (auto simp: record_failure_def Let_def)

lemma record_failures_inv:
  "threshold (record_failures ts b) = threshold b \<and>
   reset_timeout (record_failures ts b) = reset_timeout b \<and>
   failures (record_failures ts b) = failures b + int (length ts) \<and>
   (state b \<noteq> HALF_OPEN \<longrightarrow> state (record_failures ts b) \<noteq> HALF_OPEN)"
  unfolding record_failures_def
  by (induction ts rule: rev_induct) (simp_all add: record_failure_fields record_failure_state)

lemma record_failures_opens:
  assumes "ts \<noteq> []" and "threshold b \<le> failures b + int (length ts)"
  shows "state (record_failures ts b) = OPEN \<and> opened_at (record_failures ts b) = last ts"
proof -
  obtain us t where ts: "ts = us @ [t]"
    using assms(1) by (cases ts rule: rev_cases) auto
  let ?b = "record_failures us b"
  have step: "record_failures ts b = record_failure t ?b"
    by (simp add: ts record_failures_def)
  have "threshold ?b \<le> failures ?b + 1"
    using assms(2) record_failures_inv [of us b] by (simp add: ts)
  then show ?thesis
    unfolding step using record_failure_state(2) [of ?b t] by (simp add: ts)
qed

lemma allows_refused:
  assumes "state b = OPEN" and "\<forall>now \<in> set nows. float_sub now (opened_at b) < reset_timeout b"
  shows "allows nows b = (replicate (length nows) False, b)"
  using assms(2)
proof (induction nows)
  case Nil
  show ?case by simp
next
  case (Cons now nows)
  have "allow now b = (False, b)"
    using Cons.prems assms(1) by (simp add: allow_def time_until_allow_pos)
  with Cons show ?case by simp
qed

lemma allow_trial:
  assumes "state b = OPEN" and "reset_timeout b \<le> float_sub now (opened_at b)"
  shows "allow now b = (True, b\<lparr>state := HALF_OPEN, failures := 0\<rparr>)"
  using assms by (simp add: allow_def time_until_allow_pos)

text \<open>
  C7 (as amended).  Circuit breaker.  On a closed breaker (failure counter not negative, as
  the constructor and \<open>record_success\<close> leave it), \<open>threshold\<close> calls of
  \<open>record_failure\<close> in a row open it, \<open>opened_at\<close> being the clock reading of the
  last of them.  Every \<open>allow()\<close> at which the elapsed time as the breaker computes it,
  the float difference \<open>clock() - opened_at\<close>, is less than \<open>reset_timeout\<close> returns
  false and leaves the breaker as it is; the first \<open>allow()\<close> at which that difference
  is at least \<open>reset_timeout\<close> returns true and moves it to half-open; from there
  \<open>record_success\<close> closes it with the counter at 0 and \<open>record_failure\<close> opens it
  again at once.
\<close>

theorem circuit_breaker_cycle:
  assumes "state b = CLOSED" and "0 \<le> failures b" and "0 < threshold b"
    and "int (length ts) = threshold b"
  shows "state (record_failures ts b) = OPEN \<and>
         opened_at (record_failures ts b) = last ts \<and>
         ((\<forall>now \<in> set nows. float_sub now (last ts) < reset_timeout b) \<longrightarrow>
            allows nows (record_failures ts b)
              = (replicate (length nows) False, record_failures ts b) \<and>
            (reset_timeout b \<le> float_sub trial (last ts) \<longrightarrow>
               fst (allow trial (snd (allows nows (record_failures ts b)))) = True \<and>
               state (snd (allow trial (snd (allows nows (record_failures ts b))))) = HALF_OPEN \<and>
               state (record_success (snd (allow trial (snd (allows nows (record_failures ts b))))))
                 = CLOSED \<and>
               failures (record_success (snd (allow trial (snd (allows nows (record_failures ts b))))))
                 = 0 \<and>
               state (record_failure t (snd (allow trial (snd (allows nows (record_failures ts b))))))
                 = OPEN \<and>
               opened_at (record_failure t (snd (allow trial (snd (allows nows (record_failures ts b))))))
                 = t))"
proof -
  let ?b1 = "record_failures ts b"
  have ne: "ts \<noteq> []" using assms(3,4) by auto
  have opened: "state ?b1 = OPEN \<and> opened_at ?b1 = last ts"
    using record_failures_opens [OF ne, of b] assms(2,4) by simp
  have rt: "reset_timeout ?b1 = reset_timeout b"
    using record_failures_inv [of ts b] by simp
  {
    assume within: "\<forall>now \<in> set nows. float_sub now (last ts) < reset_timeout b"
    have refused: "allows nows ?b1 = (replicate (length nows) False, ?b1)"
      using allows_refused [of ?b1 nows] opened rt within by simp
    {
      assume late: "reset_timeout b \<le> float_sub trial (last ts)"
      let ?b2 = "?b1\<lparr>state := HALF_OPEN, failures := 0\<rparr>"
      have tr: "allow trial (snd (allows nows ?b1)) = (True, ?b2)"
        using allow_trial [of ?b1 trial] opened rt late by (simp add: refused)
      have "fst (allow trial (snd (allows nows ?b1))) = True \<and>
            state (snd (allow trial (snd (allows nows ?b1)))) = HALF_OPEN \<and>
            state (record_success (snd (allow trial (snd (allows nows ?b1))))) = CLOSED \<and>
            failures (record_success (snd (allow trial (snd (allows nows ?b1))))) = 0 \<and>
            state (record_failure t (snd (allow trial (snd (allows nows ?b1))))) = OPEN \<and>
            opened_at (record_failure t (snd (allow trial (snd (allows nows ?b1))))) = t"
        unfolding tr by (simp add: record_success_def record_failure_def Let_def)
    }
    note trial = this
    have "allows nows ?b1 = (replicate (length nows) False, ?b1) \<and>
          (reset_timeout b \<le> float_sub trial (last ts) \<longrightarrow>
            fst (allow trial (snd (allows nows ?b1))) = True \<and>
            state (snd (allow trial (snd (allows nows ?b1)))) = HALF_OPEN \<and>
            state (record_success (snd (allow trial (snd (allows nows ?b1))))) = CLOSED \<and>
            failures (record_success (snd (allow trial (snd (allows nows ?b1))))) = 0 \<and>
            state (record_failure t (snd (allow trial (snd (allows nows ?b1))))) = OPEN \<and>
            opened_at (record_failure t (snd (allow trial (snd (allows nows ?b1))))) = t)"
      using refused trial by blast
  }
  with opened show ?thesis by blast
qed

theorem circuit_breaker_cycle_witness:
  "CircuitBreaker_init 2 60 = Inr fresh_breaker \<and>
   state (record_failures [10, 11] fresh_breaker) = OPEN \<and>
   opened_at (record_failures [10, 11] fresh_breaker) = 11 \<and>
   float_sub 12 11 = 1 \<and> float_sub 70 11 = 59 \<and> float_sub 71 11 = 60 \<and>
   allows [12, 70] (record_failures [10, 11] fresh_breaker)
     = ([False, False], record_failures [10, 11] fresh_breaker) \<and>
   fst (allow 71 (snd (allows [12, 70] (record_failures [10, 11] fresh_breaker)))) = True \<and>
   state (snd (allow 71 (snd (allows [12, 70] (record_failures [10, 11] fresh_breaker)))))
     = HALF_OPEN \<and>
   state (record_failure 72 (snd (allow 71 (snd (allows [12, 70]
     (record_failures [10, 11] fresh_breaker)))))) = OPEN"
proof -
  have whole: "round_double (of_int k) = of_int k"
    if "2 ^ 52 \<le> (of_int k :: rat) * 2 ^ n" "(of_int k :: rat) * 2 ^ n < 2 ^ 53" "0 < k" for k n
  proof -
    have "round_double (of_int k) = of_int (round_half_even (of_int (k * 2 ^ n))) / 2 ^ n"
      using round_double_scaled [of "of_int k" n] that by simp
    then show ?thesis by (simp only: round_half_even_integer) simp
  qed
  have f: "float_sub 12 11 = 1" "float_sub 70 11 = 59" "float_sub 71 11 = 60"
    using whole [of 1 52] whole [of 59 47] whole [of 60 47] by (simp_all add: float_sub_def)
  have h: "state fresh_breaker = CLOSED" "0 \<le> failures fresh_breaker"
    "0 < threshold fresh_breaker" "int (length [10, 11 :: rat]) = threshold fresh_breaker"
    by (simp_all add: fresh_breaker_def)
  have r: "reset_timeout fresh_breaker = 60"
    by (simp add: fresh_breaker_def)
  have i: "CircuitBreaker_init 2 60 = Inr fresh_breaker"
    by (simp add: fresh_breaker_def CircuitBreaker_init_def)
  have early: "\<forall>now \<in> set [12, 70]. float_sub now (last [10, 11]) < reset_timeout fresh_breaker"
    by (simp add: f r)
  have late: "reset_timeout fresh_breaker \<le> float_sub 71 (last [10, 11])"
    by (simp add: f r)
  note c = circuit_breaker_cycle [OF h, where nows = "[12, 70]" and trial = 71 and t = 72]
  note opened = c [THEN conjunct1] c [THEN conjunct2, THEN conjunct1]
  note timed = c [THEN conjunct2, THEN conjunct2, THEN mp, OF early]
  note refused = timed [THEN conjunct1]
  note trial = timed [THEN conjunct2, THEN mp, OF late]
  have refused': "allows [12, 70] (record_failures [10, 11] fresh_breaker)
                   = ([False, False], record_failures [10, 11] fresh_breaker)"
    using refused by (simp add: numeral_2_eq_2)
  from opened have o: "state (record_failures [10, 11] fresh_breaker) = OPEN"
    "opened_at (record_failures [10, 11] fresh_breaker) = 11"
    by simp_all
  from trial have tr: "fst (allow 71 (snd (allows [12, 70] (record_failures [10, 11] fresh_breaker)))) = True"
    "state (snd (allow 71 (snd (allows [12, 70] (record_failures [10, 11] fresh_breaker)))))
       = HALF_OPEN"
    "state (record_failure 72 (snd (allow 71 (snd (allows [12, 70]
       (record_failures [10, 11] fresh_breaker)))))) = OPEN"
    by blast+
  show ?thesis
    by (intro conjI i o f refused' tr)
qed

text \<open>
  The claim as stated (every \<open>allow()\<close> within \<open>reset_timeout\<close> seconds of the opening
  returns false) fails at the boundary, where the float subtraction rounds.  The breaker
  opens at the clock reading 0.1 with a reset timeout of 5 seconds, and \<open>allow()\<close> is
  called at the clock reading 5.1: the two readings are less than 5 seconds apart, their
  float difference is 5.0, and \<open>allow()\<close> returns true.
\<close>

theorem circuit_breaker_rounding_counterexample:
  "round_double (1 / 10) = double_0_1 \<and>
   round_double (51 / 10) = double_5_1 \<and>
   state (record_failures [double_0_1] quick_breaker) = OPEN \<and>
   opened_at (record_failures [double_0_1] quick_breaker) = double_0_1 \<and>
   double_5_1 - double_0_1 < reset_timeout quick_breaker \<and>
   float_sub double_5_1 double_0_1 = 5 \<and>
   fst (allow double_5_1 (record_failures [double_0_1] quick_breaker)) = True"
proof -
  have r1: "round_half_even (of_int 72057594037927936 / of_int 10) = 7205759403792794"
    by (subst round_half_even_fraction) simp_all
  have r2: "round_half_even (of_int 57420895248973824 / of_int 10) = 5742089524897382"
    by (subst round_half_even_fraction) simp_all
  have r3: "round_half_even (of_int 180143985094819827 / of_int 32) = 5629499534213120"
    by (subst round_half_even_fraction) simp_all
  have s1: "(1 / 10 :: rat) * 2 ^ 56 = of_int 72057594037927936 / of_int 10"
    by simp
  have s2: "(51 / 10 :: rat) * 2 ^ 50 = of_int 57420895248973824 / of_int 10"
    by simp
  have s3: "(180143985094819827 / 36028797018963968 :: rat) * 2 ^ 50
              = of_int 180143985094819827 / of_int 32"
    by simp
  have "round_double (1 / 10) = of_int (round_half_even ((1 / 10) * 2 ^ 56)) / 2 ^ 56"
    by (rule round_double_scaled) simp_all
  then have a: "round_double (1 / 10) = double_0_1"
    unfolding s1 r1 by (simp add: double_0_1_def)
  have "round_double (51 / 10) = of_int (round_half_even ((51 / 10) * 2 ^ 50)) / 2 ^ 50"
    by (rule round_double_scaled) simp_all
  then have b: "round_double (51 / 10) = double_5_1"
    unfolding s2 r2 by (simp add: double_5_1_def)
  have diff: "double_5_1 - double_0_1 = 180143985094819827 / 36028797018963968"
    by (simp add: double_5_1_def double_0_1_def)
  have "round_double (180143985094819827 / 36028797018963968)
          = of_int (round_half_even ((180143985094819827 / 36028797018963968) * 2 ^ 50)) / 2 ^ 50"
    by (rule round_double_scaled) simp_all
  then have c: "float_sub double_5_1 double_0_1 = 5"
    unfolding float_sub_def diff s3 r3 by simp
  have opened: "record_failures [double_0_1] quick_breaker
                  = quick_breaker\<lparr>failures := 1, state := OPEN, opened_at := double_0_1\<rparr>"
    by (simp add: record_failures_def record_failure_def quick_breaker_def Let_def)
  have zero: "float_sub 5 5 = 0"
    by (simp add: float_sub_def round_double_def)
  have d: "fst (allow double_5_1 (record_failures [double_0_1] quick_breaker)) = True"
    unfolding opened
    by (simp add: allow_def time_until_allow_def quick_breaker_def c zero Let_def)
  have e: "double_5_1 - double_0_1 < reset_timeout quick_breaker"
    unfolding diff by (simp add: quick_breaker_def)
  from a b c d e opened show ?thesis by simp
qed

section \<open>Compression wrapper theorems\<close>

lemma not_wrapper_without_body: "body payload = [] \<Longrightarrow> \<not> is_compressed_wrapper payload"
  by (simp add: is_compressed_wrapper_def)

text \<open>
  C9 (as amended).  A payload with an empty body is never treated as a compression wrapper,
  whatever its uuid and its \<open>algorithm\<close> metric say: \<open>unwrap_if_compressed\<close> returns it
  unchanged, \<open>decode_sparkplug_payload\<close> returns the parsed payload, and the
  \<open>CompressionError\<close> of the empty-body check is raised for no payload at all.
\<close>

theorem empty_wrapper_returned_unchanged:
  "(body payload = [] \<longrightarrow> unwrap_if_compressed lib payload = Inr payload) \<and>
   (ParseFromString lib blob = Some payload \<and> body payload = [] \<longrightarrow>
      decode_sparkplug_payload lib blob = Inr payload) \<and>
   unwrap_if_compressed lib payload \<noteq> Inl (CompressionError msg)"
proof -
  have a: "body payload = [] \<Longrightarrow> unwrap_if_compressed lib payload = Inr payload"
    by (simp add: unwrap_if_compressed_def not_wrapper_without_body)
  have b: "ParseFromString lib blob = Some payload \<Longrightarrow> body payload = [] \<Longrightarrow>
             decode_sparkplug_payload lib blob = Inr payload"
    by (simp add: decode_sparkplug_payload_def a)
  have c: "unwrap_if_compressed lib payload \<noteq> Inl (CompressionError msg)"
  proof (cases "body payload = []")
    case True
    then show ?thesis by (simp add: a)
  next
    case False
    then show ?thesis
      by (auto simp: unwrap_if_compressed_def split: option.splits gzip_result.splits)
  qed
  from a b c show ?thesis by blast
qed

theorem empty_wrapper_returned_unchanged_witness:
  "marked_as_wrapper empty_wrapper \<and> body empty_wrapper = [] \<and>
   unwrap_if_compressed
     \<lparr>gzip_decompress = gzip_fails, zlib_decompress = zlib_fails,
      ParseFromString = parse_empty_wrapper\<rparr> empty_wrapper = Inr empty_wrapper \<and>
   decode_sparkplug_payload
     \<lparr>gzip_decompress = gzip_fails, zlib_decompress = zlib_fails,
      ParseFromString = parse_empty_wrapper\<rparr> [] = Inr empty_wrapper"
  using empty_wrapper_returned_unchanged [where payload = empty_wrapper and blob = "[]"
      and lib = "\<lparr>gzip_decompress = gzip_fails, zlib_decompress = zlib_fails,
                    ParseFromString = parse_empty_wrapper\<rparr>"]
  by (simp add: empty_wrapper_def marked_as_wrapper_def parse_empty_wrapper_def)

text \<open>
  The claim as stated fails: the payload below carries both wrapper marks and an empty
  body, and decoding returns it instead of raising \<open>CompressionError\<close>.
\<close>

theorem empty_wrapper_counterexample:
  "marked_as_wrapper empty_wrapper \<and> body empty_wrapper = [] \<and>
   unwrap_if_compressed
     \<lparr>gzip_decompress = gzip_fails, zlib_decompress = zlib_fails,
      ParseFromString = parse_fails\<rparr> empty_wrapper = Inr empty_wrapper \<and>
   unwrap_if_compressed
     \<lparr>gzip_decompress = gzip_fails, zlib_decompress = zlib_fails,
      ParseFromString = parse_fails\<rparr> empty_wrapper
     \<noteq> Inl (CompressionError ''Compressed payload had empty body'')"
  by (simp add: empty_wrapper_def marked_as_wrapper_def unwrap_if_compressed_def
      is_compressed_wrapper_def)

section \<open>Alias cache theorems\<close>

lemma of_char_digit: "d < 10 \<Longrightarrow> (of_char (digit_char d) :: nat) = 48 + d"
  by (simp add: digit_char_def)

lemma digit_char_props:
  assumes "d < 10"
  shows "is_digit (digit_char d)" "digit_val (digit_char d) = d" "\<not> is_space (digit_char d)"
    "digit_char d \<noteq> CHR ''-''" "digit_char d \<noteq> CHR ''+''"
proof -
  note c = of_char_digit [OF assms]
  show "is_digit (digit_char d)" using assms by (simp add: is_digit_def c)
  show "digit_val (digit_char d) = d" by (simp add: digit_val_def c)
  show "\<not> is_space (digit_char d)" using assms by (simp add: is_space_def c)
  have "(of_char (digit_char d) :: nat) \<noteq> of_char (CHR ''-'')" by (simp add: c)
  then show "digit_char d \<noteq> CHR ''-''" by metis
  have "(of_char (digit_char d) :: nat) \<noteq> of_char (CHR ''+'')" by (simp add: c)
  then show "digit_char d \<noteq> CHR ''+''" by metis
qed

lemma str_nat_digits:
  "str_nat n \<noteq> [] \<and> list_all is_digit (str_nat n) \<and>
   foldl (\<lambda>acc c. 10 * acc + digit_val c) 0 (str_nat n) = n"
proof (induction n rule: str_nat.induct)
  case (1 n)
  show ?case
  proof (cases "n < 10")
    case True
    then show ?thesis
      by (subst (1 2 3) str_nat.simps) (simp add: digit_char_props)
  next
    case False
    have m: "n mod 10 < 10" by simp
    from "1.IH" [OF False] False show ?thesis
      by (subst (1 2 3) str_nat.simps) (simp add: digit_char_props [OF m])
  qed
qed

lemma parse_digits_str_nat: "parse_digits (str_nat n) = Some n"
  using str_nat_digits [of n] by (simp add: parse_digits_def)

lemma strip_no_space: "\<forall>c \<in> set s. \<not> is_space c \<Longrightarrow> strip s = s"
proof -
  assume a: "\<forall>c \<in> set s. \<not> is_space c"
  have d: "dropWhile is_space xs = xs" if "\<forall>c \<in> set xs. \<not> is_space c" for xs
    using that by (cases xs) auto
  show ?thesis
    using a by (simp add: strip_def d)
qed

lemma str_nat_no_space: "\<forall>c \<in> set (str_nat n). \<not> is_space c"
proof -
  have "\<not> is_space c" if "is_digit c" for c
    using that by (auto simp: is_digit_def is_space_def)
  then show ?thesis
    using str_nat_digits [of n] by (auto simp: list_all_iff)
qed

lemma str_nat_head: "\<exists>c cs. str_nat n = c # cs \<and> c \<noteq> CHR ''-'' \<and> c \<noteq> CHR ''+''"
proof -
  obtain c cs where s: "str_nat n = c # cs"
    using str_nat_digits [of n] by (cases "str_nat n") auto
  have "is_digit c" using str_nat_digits [of n] by (simp add: s)
  then have "(of_char c :: nat) \<noteq> of_char (CHR ''-'')" "(of_char c :: nat) \<noteq> of_char (CHR ''+'')"
    by (simp_all add: is_digit_def)
  then have "c \<noteq> CHR ''-''" "c \<noteq> CHR ''+''" by metis+
  with s show ?thesis by blast
qed

lemma int_of_str_inverse: "int_of_str (str_of_int i) = Some i"
proof (cases "i < 0")
  case True
  have ns: "\<not> is_space (CHR ''-'')" by (simp add: is_space_def)
  have "strip (str_of_int i) = CHR ''-'' # str_nat (nat (- i))"
    using True str_nat_no_space [of "nat (- i)"] ns
    by (intro strip_no_space [THEN trans]) (auto simp: str_of_int_def)
  then show ?thesis
    using True by (simp add: int_of_str_def parse_digits_str_nat)
next
  case False
  obtain c cs where s: "str_nat (nat i) = c # cs" and c: "c \<noteq> CHR ''-''" "c \<noteq> CHR ''+''"
    using str_nat_head by blast
  have "strip (str_of_int i) = str_nat (nat i)"
    using False str_nat_no_space [of "nat i"]
    by (intro strip_no_space [THEN trans]) (auto simp: str_of_int_def)
  then show ?thesis
    using False c parse_digits_str_nat [of "nat i"] by (simp add: int_of_str_def s)
qed

lemma str_of_int_inj: "str_of_int a = str_of_int b \<Longrightarrow> a = b"
  by (metis int_of_str_inverse option.inject)

lemma update_fresh: "k \<notin> fst ` set al \<Longrightarrow> AList.update k v al = al @ [(k, v)]"
  by (induction al) auto

lemma fold_update_fresh:
  assumes "distinct (map fst acc @ map (\<lambda>x. f (fst x)) xs)"
  shows "fold (\<lambda>(k, v) d. AList.update (f k) (g v) d) xs acc
           = acc @ map (\<lambda>(k, v). (f k, g v)) xs"
  using assms
proof (induction xs arbitrary: acc)
  case Nil
  show ?case by simp
next
  case (Cons x xs)
  obtain k v where x: "x = (k, v)" by (cases x)
  have fresh: "f k \<notin> fst ` set acc"
    using Cons.prems by (auto simp: x)
  have d: "distinct (map fst (acc @ [(f k, g v)]) @ map (\<lambda>x. f (fst x)) xs)"
    using Cons.prems by (auto simp: x)
  show ?case
    using Cons.IH [OF d] by (simp add: x update_fresh [OF fresh])
qed

lemma serialize_entries_map:
  assumes "distinct (map fst alias_entries)"
  shows "serialize_entries alias_entries = map (\<lambda>(alias, info). (str_of_int alias, info)) alias_entries"
proof -
  define ys where "ys = map fst alias_entries"
  have "inj_on str_of_int (set ys)"
    by (rule inj_onI) (rule str_of_int_inj)
  moreover have "distinct ys"
    using assms by (simp add: ys_def)
  ultimately have "distinct (map str_of_int ys)"
    by (simp add: distinct_map)
  then have d: "distinct (map fst [] @ map (\<lambda>x. str_of_int (fst x)) alias_entries)"
    by (simp add: ys_def comp_def)
  show ?thesis
    unfolding serialize_entries_def
    using fold_update_fresh [OF d, where g = "\<lambda>x. x"] by simp
qed

lemma deserialize_entries_map:
  assumes "distinct (map fst acc @ map fst xs)"
  shows "deserialize_entries (map (\<lambda>(alias, info). (str_of_int alias, info)) xs) acc
           = Inr (acc @ xs)"
  using assms
proof (induction xs arbitrary: acc)
  case Nil
  show ?case by simp
next
  case (Cons x xs)
  obtain a i where x: "x = (a, i)" by (cases x)
  have fresh: "a \<notin> fst ` set acc"
    using Cons.prems by (auto simp: x)
  have d: "distinct (map fst (acc @ [(a, i)]) @ map fst xs)"
    using Cons.prems by (auto simp: x)
  show ?case
    using Cons.IH [OF d] by (simp add: x int_of_str_inverse update_fresh [OF fresh])
qed

lemma entries_round_trip:
  "distinct (map fst alias_entries) \<Longrightarrow>
     deserialize_entries (serialize_entries alias_entries) [] = Inr alias_entries"
  using deserialize_entries_map [of "[]" alias_entries] by (simp add: serialize_entries_map)

lemma split_first:
  assumes "sep \<notin> set g"
  shows "takeWhile (\<lambda>c. c \<noteq> sep) (g @ sep # r) = g"
    and "tl (dropWhile (\<lambda>c. c \<noteq> sep) (g @ sep # r)) = r"
  using assms by (induction g) auto

lemma split_composite:
  assumes "sep \<notin> set g" and "sep \<notin> set e"
  shows "split_max sep 2 (g @ [sep] @ e @ [sep] @ t) = [g, e, t]"
proof -
  have "split_max sep (Suc (Suc 0)) (g @ sep # (e @ sep # t))
          = g # split_max sep (Suc 0) (e @ sep # t)"
    using split_first [OF assms(1), of "e @ sep # t"] by simp
  also have "split_max sep (Suc 0) (e @ sep # t) = [e, t]"
    using split_first [OF assms(2), of t] by simp
  finally show ?thesis by (simp add: numeral_2_eq_2)
qed

lemma split_composite_key:
  assumes "valid_key (grp, edge_node, device)"
  shows "split_max (CHR ''|'') 2 (composite_key (grp, edge_node, device))
           = [grp, edge_node, (case device of None \<Rightarrow> [] | Some d \<Rightarrow> d)]"
    and "(if (case device of None \<Rightarrow> [] | Some d \<Rightarrow> d) = [] then None
          else Some (case device of None \<Rightarrow> [] | Some d \<Rightarrow> d)) = device"
proof -
  from assms have g: "CHR ''|'' \<notin> set grp" and e: "CHR ''|'' \<notin> set edge_node"
    and d: "device \<noteq> Some []"
    by (simp_all add: valid_key_def)
  show "split_max (CHR ''|'') 2 (composite_key (grp, edge_node, device))
           = [grp, edge_node, (case device of None \<Rightarrow> [] | Some d \<Rightarrow> d)]"
    using split_composite [OF g e] by (simp add: composite_key_def)
  show "(if (case device of None \<Rightarrow> [] | Some d \<Rightarrow> d) = [] then None
          else Some (case device of None \<Rightarrow> [] | Some d \<Rightarrow> d)) = device"
    using d by (cases device) auto
qed

lemma composite_key_inj:
  assumes "valid_key k" and "valid_key k'" and "composite_key k = composite_key k'"
  shows "k = k'"
proof -
  obtain g e d where k: "k = (g, e, d)" by (cases k)
  obtain g' e' d' where k': "k' = (g', e', d')" by (cases k')
  have "[g, e, (case d of None \<Rightarrow> [] | Some x \<Rightarrow> x)]
          = [g', e', (case d' of None \<Rightarrow> [] | Some x \<Rightarrow> x)]"
    using split_composite_key(1) [of g e d] split_composite_key(1) [of g' e' d'] assms
    by (simp add: k k')
  then have ge: "g = g'" "e = e'"
    and t: "(case d of None \<Rightarrow> [] | Some x \<Rightarrow> x) = (case d' of None \<Rightarrow> [] | Some x \<Rightarrow> x)"
    by simp_all
  define tok where "tok = (\<lambda>x :: string option. case x of None \<Rightarrow> [] | Some y \<Rightarrow> y)"
  have vk: "valid_key (g, e, d)" "valid_key (g', e', d')"
    using assms(1,2) by (simp_all add: k k')
  have a: "(if tok d = [] then None else Some (tok d)) = d"
    unfolding tok_def by (rule split_composite_key(2) [OF vk(1)])
  have b: "(if tok d' = [] then None else Some (tok d')) = d'"
    unfolding tok_def by (rule split_composite_key(2) [OF vk(2)])
  have "tok d = tok d'"
    using t by (simp add: tok_def)
  then have "d = d'"
    using a b by (metis (full_types))
  with ge show ?thesis by (simp add: k k')
qed

lemma deserialize_items_map:
  assumes "distinct (map fst acc @ map fst m)"
    and "\<forall>x \<in> set m. valid_key (fst x) \<and> distinct (map fst (snd x))"
  shows "deserialize_items
           (map (\<lambda>(k, alias_entries). (composite_key k, serialize_entries alias_entries)) m) acc
           = Inr (acc @ m)"
  using assms
proof (induction m arbitrary: acc)
  case Nil
  show ?case by simp
next
  case (Cons x m)
  obtain g e d alias_entries where x: "x = ((g, e, d), alias_entries)" by (cases x) auto
  have valid: "valid_key (g, e, d)" and dist: "distinct (map fst alias_entries)"
    using Cons.prems(2) by (simp_all add: x)
  have fresh: "(g, e, d) \<notin> fst ` set acc"
    using Cons.prems(1) by (auto simp: x)
  have d': "distinct (map fst (acc @ [((g, e, d), alias_entries)]) @ map fst m)"
    using Cons.prems(1) by (auto simp: x)
  have rest: "\<forall>x \<in> set m. valid_key (fst x) \<and> distinct (map fst (snd x))"
    using Cons.prems(2) by simp
  show ?case
    using Cons.IH [OF d' rest] split_composite_key(2) [OF valid]
    by (simp add: x split_composite_key(1) [OF valid] entries_round_trip [OF dist]
        update_fresh [OF fresh] Let_def)
qed

lemma serialize_alias_maps_map:
  assumes "distinct (map fst m)" and "\<forall>x \<in> set m. valid_key (fst x)"
  shows "serialize_alias_maps m
           = map (\<lambda>(k, alias_entries). (composite_key k, serialize_entries alias_entries)) m"
proof -
  define ks where "ks = map fst m"
  have "inj_on composite_key (set ks)"
    using assms(2) by (intro inj_onI composite_key_inj) (auto simp: ks_def)
  moreover have "distinct ks"
    using assms(1) by (simp add: ks_def)
  ultimately have "distinct (map composite_key ks)"
    by (simp add: distinct_map)
  then have d: "distinct (map fst [] @ map (\<lambda>x. composite_key (fst x)) m)"
    by (simp add: ks_def comp_def)
  show ?thesis
    unfolding serialize_alias_maps_def
    using fold_update_fresh [OF d, where g = serialize_entries] by simp
qed

text \<open>
  C10.  Alias cache round trip.  For a registry (a dictionary: no key twice, and no alias
  twice within one alias map) whose keys have no \<open>|\<close> in group and edge node and a device
  that is \<open>None\<close> or a non-empty string, deserialising the serialised registry succeeds
  and gives the registry back.
\<close>

theorem alias_round_trip:
  assumes "distinct (map fst m)"
    and "\<forall>x \<in> set m. valid_key (fst x) \<and> distinct (map fst (snd x))"
  shows "deserialize_alias_maps (serialize_alias_maps m) = Inr m"
proof -
  have "serialize_alias_maps m
          = map (\<lambda>(k, alias_entries). (composite_key k, serialize_entries alias_entries)) m"
    using assms by (intro serialize_alias_maps_map) auto
  then show ?thesis
    using deserialize_items_map [of "[]" m] assms by (simp add: deserialize_alias_maps_def)
qed

theorem alias_round_trip_witness:
  "distinct (map fst sample_registry) \<and>
   valid_key (''Secil'', ''EdgeNode'', Some ''Device|A'') \<and>
   valid_key (''Secil'', ''EdgeNode'', None) \<and>
   serialize_alias_maps sample_registry
     = [(''Secil|EdgeNode|Device|A'', [(''7'', ''pump_state''), (''-12'', ''flow'')]),
        (''Secil|EdgeNode|'', [(''5'', ''node_temp'')])] \<and>
   deserialize_alias_maps (serialize_alias_maps sample_registry) = Inr sample_registry"
proof -
  have d: "distinct (map fst sample_registry)"
    by (simp add: sample_registry_def)
  have v: "\<forall>x \<in> set sample_registry. valid_key (fst x) \<and> distinct (map fst (snd x))"
    by (simp add: sample_registry_def valid_key_def)
  have s: "serialize_alias_maps sample_registry
     = [(''Secil|EdgeNode|Device|A'', [(''7'', ''pump_state''), (''-12'', ''flow'')]),
        (''Secil|EdgeNode|'', [(''5'', ''node_temp'')])]"
    by code_simp
  from alias_round_trip [OF d v] d s show ?thesis
    by (simp add: valid_key_def)
qed

end
